theory Spec2Isabelle
  imports Complex_Main "HOL-Library.AList"
begin

section \<open>Retrieval metrics (metrics.py)\<close>

text \<open>
  Item identifiers are Python strings. Python floats are modelled as exact rationals:
  every quotient below is a quotient of small integers, and the claims are about the
  arithmetic the code writes down, not about rounding. Exceptions are values of the
  type \<open>error\<close>; a \<open>ValueError\<close> carries the place that raised it.
\<close>

type_synonym cluster_id = string

datatype value_error =
    DuplicatePreds      \<comment> \<open>"Predictions should be unique. Duplicates detected."\<close>
  | DuplicateGold       \<comment> \<open>"Gold item list should be unique. Duplicates detected."\<close>
  | UnknownMetric       \<comment> \<open>"Couldn't find implementation for some metrics."\<close>
  | KTooLarge           \<comment> \<open>"k is larger than the number of retrieved preds, ..."\<close>
  | MaxOfEmpty          \<comment> \<open>raised by the builtin \<open>max\<close> on an empty sequence\<close>

datatype error = ValueError value_error | ZeroDivisionError | KeyError

text \<open>The slice \<open>preds[:k]\<close>: a negative \<open>k\<close> counts from the end of the list.\<close>

definition py_take :: "int \<Rightarrow> 'a list \<Rightarrow> 'a list" where
  "py_take k xs = (if k < 0 then take (nat (int (length xs) + k)) xs else take (nat k) xs)"

text \<open>\<open>len(set(gold).intersection(preds))\<close>\<close>

definition num_hit :: "cluster_id list \<Rightarrow> cluster_id list \<Rightarrow> nat" where
  "num_hit gold preds = card (set gold \<inter> set preds)"

definition get_hit :: "cluster_id list \<Rightarrow> cluster_id list \<Rightarrow> int \<Rightarrow> rat" where
  "get_hit gold preds k =
     (let preds = py_take k preds in if num_hit gold preds > 0 then 1 else 0)"

text \<open>The loop of \<open>get_reciprocal_rank\<close>; \<open>i\<close> is the index of \<open>enumerate(preds, start=1)\<close>.\<close>

fun reciprocal_rank_loop :: "cluster_id list \<Rightarrow> nat \<Rightarrow> cluster_id list \<Rightarrow> rat" where
  "reciprocal_rank_loop gold i [] = 0"
| "reciprocal_rank_loop gold i (pred # preds) =
     (if pred \<in> set gold then 1 / of_nat i else reciprocal_rank_loop gold (Suc i) preds)"

definition get_reciprocal_rank :: "cluster_id list \<Rightarrow> cluster_id list \<Rightarrow> int \<Rightarrow> rat" where
  "get_reciprocal_rank gold preds k =
     (let preds = py_take k preds in reciprocal_rank_loop gold 1 preds)"

definition get_precision :: "cluster_id list \<Rightarrow> cluster_id list \<Rightarrow> int \<Rightarrow> error + rat" where
  "get_precision gold preds k =
     (let preds = py_take k preds in
      if length preds = 0 then Inl ZeroDivisionError
      else Inr (of_nat (num_hit gold preds) / of_nat (length preds)))"

definition get_recall :: "cluster_id list \<Rightarrow> cluster_id list \<Rightarrow> int \<Rightarrow> error + rat" where
  "get_recall gold preds k =
     (let preds = py_take k preds in
      if length gold = 0 then Inl ZeroDivisionError
      else Inr (of_nat (num_hit gold preds) / of_nat (length gold)))"

text \<open>
  The loop of \<open>get_average_precision\<close>: \<open>i\<close> is the rank, \<open>n\<close> is \<open>num_hit\<close> and
  \<open>tp\<close> is \<open>total_precision\<close>; the result is the final \<open>total_precision\<close>.
\<close>

fun average_precision_loop ::
  "cluster_id list \<Rightarrow> nat \<Rightarrow> nat \<Rightarrow> rat \<Rightarrow> cluster_id list \<Rightarrow> rat" where
  "average_precision_loop gold i n tp [] = tp"
| "average_precision_loop gold i n tp (pred # preds) =
     (if pred \<in> set gold
      then average_precision_loop gold (Suc i) (Suc n) (tp + of_nat (Suc n) / of_nat i) preds
      else average_precision_loop gold (Suc i) n tp preds)"

definition get_average_precision ::
  "cluster_id list \<Rightarrow> cluster_id list \<Rightarrow> int \<Rightarrow> error + rat" where
  "get_average_precision gold preds k =
     (let preds = py_take k preds;
          total_precision = average_precision_loop gold 1 0 0 preds in
      if min (length gold) (length preds) = 0 then Inl ZeroDivisionError
      else Inr (total_precision / of_nat (min (length gold) (length preds))))"

definition has_duplicates :: "'a list \<Rightarrow> bool" where
  "has_duplicates values = (length values > card (set values))"

text \<open>
  The registry \<open>_STANDARD_METRIC_MAP\<close>. \<open>get_hit\<close> and \<open>get_reciprocal_rank\<close> have
  no failing branch, so their values are injected with \<open>Inr\<close>.
\<close>

type_synonym metric_fn = "cluster_id list \<Rightarrow> cluster_id list \<Rightarrow> int \<Rightarrow> error + rat"

definition STANDARD_METRIC_MAP :: "(string \<times> metric_fn) list" where
  "STANDARD_METRIC_MAP =
     [(''hit'', \<lambda>gold preds k. Inr (get_hit gold preds k)),
      (''map'', get_average_precision),
      (''recall'', get_recall),
      (''precision'', get_precision),
      (''mrr'', \<lambda>gold preds k. Inr (get_reciprocal_rank gold preds k))]"

text \<open>\<open>sorted(_STANDARD_METRIC_MAP.keys())\<close>\<close>

definition STANDARD_METRICS :: "string list" where
  "STANDARD_METRICS = [''hit'', ''map'', ''mrr'', ''precision'', ''recall'']"

subsection \<open>The keys: the metric name, an at sign and the cutoff in decimal\<close>

definition digit_char :: "nat \<Rightarrow> char" where
  "digit_char d = char_of (of_char (CHR ''0'') + d)"

function str_nat :: "nat \<Rightarrow> string" where
  "str_nat n = (if n < 10 then [digit_char n] else str_nat (n div 10) @ [digit_char (n mod 10)])"
  by pat_completeness auto
termination
  by (relation "measure id") auto

declare str_nat.simps [simp del]

definition str_int :: "int \<Rightarrow> string" where
  "str_int k = (if k < 0 then ''-'' @ str_nat (nat (- k)) else str_nat (nat k))"

definition metric_key :: "string \<Rightarrow> int \<Rightarrow> string" where
  "metric_key metric k = metric @ ''@'' @ str_int k"

subsection \<open>\<open>compute_metrics\<close>\<close>

type_synonym metric_vals = "(string \<times> rat) list"

text \<open>The builtin \<open>max\<close> on a sequence: a \<open>ValueError\<close> on the empty one.\<close>

definition py_max :: "int list \<Rightarrow> error + int" where
  "py_max ks = (case ks of [] \<Rightarrow> Inl (ValueError MaxOfEmpty) | k # ks' \<Rightarrow> Inr (fold max ks' k))"

text \<open>
  A Python dictionary keeps its keys in the order of their first insertion, and a later
  store under the same key replaces the value in place: this is \<open>AList.update\<close>.
  The inner loop \<open>for k in k_values\<close> and the outer loop \<open>for metric in metrics\<close>
  stop at the first exception.
\<close>

fun k_loop :: "metric_vals \<Rightarrow> string \<Rightarrow> metric_fn \<Rightarrow> cluster_id list \<Rightarrow> cluster_id list
    \<Rightarrow> int list \<Rightarrow> error + metric_vals" where
  "k_loop metric_vals metric metric_fn gold preds [] = Inr metric_vals"
| "k_loop metric_vals metric metric_fn gold preds (k # ks) =
     (case metric_fn gold preds k of
        Inl e \<Rightarrow> Inl e
      | Inr v \<Rightarrow> k_loop (AList.update (metric_key metric k) v metric_vals)
                  metric metric_fn gold preds ks)"

fun metric_loop :: "metric_vals \<Rightarrow> cluster_id list \<Rightarrow> cluster_id list \<Rightarrow> int list
    \<Rightarrow> string list \<Rightarrow> error + metric_vals" where
  "metric_loop metric_vals gold preds k_values [] = Inr metric_vals"
| "metric_loop metric_vals gold preds k_values (metric # metrics) =
     (case map_of STANDARD_METRIC_MAP metric of
        None \<Rightarrow> Inl KeyError
      | Some metric_fn \<Rightarrow>
          (case k_loop metric_vals metric metric_fn gold preds k_values of
             Inl e \<Rightarrow> Inl e
           | Inr metric_vals' \<Rightarrow> metric_loop metric_vals' gold preds k_values metrics))"

definition compute_metrics :: "cluster_id list \<Rightarrow> cluster_id list \<Rightarrow> int list \<Rightarrow> string list
    \<Rightarrow> error + metric_vals" where
  "compute_metrics preds gold k_values metrics =
     (if has_duplicates preds then Inl (ValueError DuplicatePreds)
      else if has_duplicates gold then Inl (ValueError DuplicateGold)
      else if \<exists>metric \<in> set metrics. map_of STANDARD_METRIC_MAP metric = None
        then Inl (ValueError UnknownMetric)
      else case py_max k_values of
        Inl e \<Rightarrow> Inl e
      | Inr m \<Rightarrow>
          if m > int (length preds) then Inl (ValueError KTooLarge)
          else metric_loop [] gold preds k_values metrics)"

section \<open>Running averages (eval.py)\<close>

text \<open>
  \<open>_AveragedValue\<close>: the field \<open>count\<close> is a float that starts at \<open>0.0\<close> and that the
  code only ever increments by one, so it is a natural number here and the division by
  the incremented count cannot fail.
\<close>

record AveragedValue =
  avg_value :: rat
  avg_count :: nat

definition AveragedValue_init :: AveragedValue where
  "AveragedValue_init = \<lparr>avg_value = 0, avg_count = 0\<rparr>"

definition AveragedValue_update :: "AveragedValue \<Rightarrow> rat \<Rightarrow> AveragedValue" where
  "AveragedValue_update self v =
     (let self = self\<lparr>avg_count := avg_count self + 1\<rparr> in
      self\<lparr>avg_value := avg_value self + (v - avg_value self) / of_nat (avg_count self)\<rparr>)"

text \<open>
  \<open>_PerTurnMetricSummary\<close>: \<open>range(max_turns)\<close> is empty for a negative
  \<open>max_turns\<close>; every bucket is an accumulator of its own.
\<close>

record PerTurnMetricSummary =
  micro_average :: AveragedValue
  macro_average :: AveragedValue
  per_turn_average :: "AveragedValue list"

definition PerTurnMetricSummary_init :: "int \<Rightarrow> PerTurnMetricSummary" where
  "PerTurnMetricSummary_init max_turns =
     \<lparr>micro_average = AveragedValue_init,
      macro_average = AveragedValue_init,
      per_turn_average = replicate (nat max_turns) AveragedValue_init\<rparr>"

text \<open>The loop \<open>for turn_idx, value in enumerate(values)\<close> of \<open>update\<close>.\<close>

fun turn_loop :: "PerTurnMetricSummary \<Rightarrow> nat \<Rightarrow> rat list \<Rightarrow> PerTurnMetricSummary" where
  "turn_loop self turn_idx [] = self"
| "turn_loop self turn_idx (v # vs) =
     (let self =
        (if turn_idx < length (per_turn_average self)
         then self\<lparr>per_turn_average := (per_turn_average self)
                [turn_idx := AveragedValue_update (per_turn_average self ! turn_idx) v]\<rparr>
         else self);
          self = self\<lparr>micro_average := AveragedValue_update (micro_average self) v\<rparr>
      in turn_loop self (Suc turn_idx) vs)"

text \<open>\<open>sum(values)/len(values)\<close> raises \<open>ZeroDivisionError\<close> on an empty list.\<close>

definition PerTurnMetricSummary_update ::
  "PerTurnMetricSummary \<Rightarrow> rat list \<Rightarrow> error + PerTurnMetricSummary" where
  "PerTurnMetricSummary_update self vals =
     (if length vals = 0 then Inl ZeroDivisionError
      else
        let self = self\<lparr>macro_average :=
              AveragedValue_update (macro_average self) (sum_list vals / of_nat (length vals))\<rparr>
        in Inr (turn_loop self 0 vals))"

section \<open>The per-turn scorer (eval.py)\<close>

definition filter_tracks :: "cluster_id list \<Rightarrow> cluster_id set \<Rightarrow> cluster_id list" where
  "filter_tracks tracks seed_tracks = filter (\<lambda>track. track \<notin> seed_tracks) tracks"

type_synonym per_turn_vals = "(string \<times> rat list) list"

text \<open>
  \<open>ret[metric_name].append(v)\<close> on a \<open>defaultdict(list)\<close>: a missing key is created
  with the empty list, at the end of the dictionary.
\<close>

definition dd_append :: "string \<Rightarrow> rat \<Rightarrow> per_turn_vals \<Rightarrow> per_turn_vals" where
  "dd_append metric_name v ret =
     AList.update metric_name
       ((case map_of ret metric_name of None \<Rightarrow> [] | Some vs \<Rightarrow> vs) @ [v]) ret"

text \<open>\<open>for metric_name, metric_vals in turn_metrics.items(): ...\<close>\<close>

definition append_turn_metrics :: "per_turn_vals \<Rightarrow> metric_vals \<Rightarrow> per_turn_vals" where
  "append_turn_metrics ret turn_metrics =
     fold (\<lambda>(metric_name, v) ret. dd_append metric_name v ret) turn_metrics ret"

text \<open>
  The loop \<open>for turn_preds, turn_seed_tracks in zip(preds, seed_tracks)\<close> with its two
  variables \<open>ret\<close> and \<open>prev_seed_tracks\<close>.
\<close>

fun per_turn_loop :: "per_turn_vals \<Rightarrow> cluster_id set
    \<Rightarrow> (cluster_id list \<times> cluster_id list) list \<Rightarrow> cluster_id list \<Rightarrow> int list
    \<Rightarrow> error + per_turn_vals" where
  "per_turn_loop ret prev_seed_tracks [] gold k_values = Inr ret"
| "per_turn_loop ret prev_seed_tracks ((turn_preds, turn_seed_tracks) # turns) gold k_values =
     (let prev_seed_tracks = prev_seed_tracks \<union> set turn_seed_tracks;
          filtered_preds = filter_tracks turn_preds prev_seed_tracks;
          filtered_gold = filter_tracks gold prev_seed_tracks
      in if filtered_gold = [] then per_turn_loop ret prev_seed_tracks turns gold k_values
         else case compute_metrics filtered_preds filtered_gold k_values STANDARD_METRICS of
                Inl e \<Rightarrow> Inl e
              | Inr turn_metrics \<Rightarrow>
                  per_turn_loop (append_turn_metrics ret turn_metrics) prev_seed_tracks
                    turns gold k_values)"

definition compute_metrics_per_turn :: "cluster_id list list \<Rightarrow> cluster_id list
    \<Rightarrow> cluster_id list list \<Rightarrow> int list \<Rightarrow> error + per_turn_vals" where
  "compute_metrics_per_turn preds gold seed_tracks k_values =
     per_turn_loop [] {} (zip preds seed_tracks) gold k_values"

section \<open>The aggregator (eval.py)\<close>

type_synonym dialog_id = string
type_synonym agg_metrics = "(string \<times> PerTurnMetricSummary) list"

text \<open>
  \<open>for metric_name, metric_vals in dialog_metrics.items():
  agg_metrics[metric_name].update(metric_vals)\<close>, where \<open>agg_metrics\<close> is a
  \<open>defaultdict\<close> that creates a summary of \<open>max_turns\<close> buckets for a new key.
\<close>

fun agg_update :: "int \<Rightarrow> agg_metrics \<Rightarrow> per_turn_vals \<Rightarrow> error + agg_metrics" where
  "agg_update max_turns agg [] = Inr agg"
| "agg_update max_turns agg ((metric_name, metric_vals) # rest) =
     (let summ = (case map_of agg metric_name of
                    None \<Rightarrow> PerTurnMetricSummary_init max_turns
                  | Some summ \<Rightarrow> summ)
      in case PerTurnMetricSummary_update summ metric_vals of
           Inl e \<Rightarrow> Inl e
         | Inr summ' \<Rightarrow> agg_update max_turns (AList.update metric_name summ' agg) rest)"

text \<open>
  The loop over \<open>preds.items()\<close>. The dictionary \<open>preds\<close> is iterated, so it is the
  list of its items; \<open>gold\<close> and \<open>seed_tracks\<close> are only looked up, and a missing
  dialog id raises \<open>KeyError\<close>.
\<close>

fun dialog_loop :: "int \<Rightarrow> agg_metrics \<Rightarrow> (dialog_id \<times> cluster_id list list) list
    \<Rightarrow> (dialog_id \<rightharpoonup> cluster_id list) \<Rightarrow> (dialog_id \<rightharpoonup> cluster_id list list) \<Rightarrow> int list
    \<Rightarrow> error + agg_metrics" where
  "dialog_loop max_turns agg [] gold seed_tracks k_values = Inr agg"
| "dialog_loop max_turns agg ((dialog_id, dialog_preds) # rest) gold seed_tracks k_values =
     (case gold dialog_id of
        None \<Rightarrow> Inl KeyError
      | Some dialog_gold \<Rightarrow>
     (case seed_tracks dialog_id of
        None \<Rightarrow> Inl KeyError
      | Some dialog_seeds \<Rightarrow>
     (case compute_metrics_per_turn dialog_preds dialog_gold dialog_seeds k_values of
        Inl e \<Rightarrow> Inl e
      | Inr dialog_metrics \<Rightarrow>
     (case agg_update max_turns agg dialog_metrics of
        Inl e \<Rightarrow> Inl e
      | Inr agg' \<Rightarrow> dialog_loop max_turns agg' rest gold seed_tracks k_values))))"

definition summary_values :: "PerTurnMetricSummary \<Rightarrow> rat list" where
  "summary_values metric_summ =
     [avg_value (macro_average metric_summ), avg_value (micro_average metric_summ)]
     @ map avg_value (per_turn_average metric_summ)"

definition summary_counts :: "PerTurnMetricSummary \<Rightarrow> rat list" where
  "summary_counts metric_summ =
     [of_nat (avg_count (macro_average metric_summ)),
      of_nat (avg_count (micro_average metric_summ))]
     @ map (\<lambda>turn_avg. of_nat (avg_count turn_avg)) (per_turn_average metric_summ)"

text \<open>The reporting loop: both stores happen on every iteration.\<close>

fun report_loop :: "(string \<times> rat list) list \<Rightarrow> agg_metrics \<Rightarrow> (string \<times> rat list) list" where
  "report_loop reported_metrics [] = reported_metrics"
| "report_loop reported_metrics ((metric_name, metric_summ) # rest) =
     report_loop
       (AList.update ''counts'' (summary_counts metric_summ)
          (AList.update metric_name (summary_values metric_summ) reported_metrics))
       rest"

definition score_dataset :: "(dialog_id \<times> cluster_id list list) list
    \<Rightarrow> (dialog_id \<rightharpoonup> cluster_id list) \<Rightarrow> (dialog_id \<rightharpoonup> cluster_id list list) \<Rightarrow> int list
    \<Rightarrow> int \<Rightarrow> error + (string \<times> rat list) list" where
  "score_dataset preds gold seed_tracks k_values max_turns =
     (case dialog_loop max_turns [] preds gold seed_tracks k_values of
        Inl e \<Rightarrow> Inl e
      | Inr agg \<Rightarrow> Inr (report_loop [] agg))"

section \<open>The specification's formula for average precision\<close>

text \<open>
  These definitions follow the specification's sentence, not the code: the sum of
  (hits so far / rank) over the relevant predictions within the top \<open>k\<close>, divided by
  \<open>min(|gold|, k)\<close>. Rank \<open>j + 1\<close> belongs to the list position \<open>j\<close>.
\<close>

definition hits_so_far :: "cluster_id list \<Rightarrow> cluster_id list \<Rightarrow> nat \<Rightarrow> nat" where
  "hits_so_far gold topk r = length (filter (\<lambda>p. p \<in> set gold) (take r topk))"

definition spec_precision_sum :: "cluster_id list \<Rightarrow> cluster_id list \<Rightarrow> rat" where
  "spec_precision_sum gold topk =
     (\<Sum>j\<leftarrow>filter (\<lambda>j. topk ! j \<in> set gold) [0..<length topk].
        of_nat (hits_so_far gold topk (Suc j)) / of_nat (Suc j))"

definition spec_average_precision :: "cluster_id list \<Rightarrow> cluster_id list \<Rightarrow> int \<Rightarrow> rat" where
  "spec_average_precision gold preds k =
     spec_precision_sum gold (py_take k preds) / of_int (min (int (length gold)) k)"

section \<open>The per-turn scorer described turn by turn\<close>

text \<open>
  These definitions follow the specification's description by turn index, not the
  code. \<open>seen seed_tracks n\<close> is the running set after the seed batches of the first
  \<open>n\<close> turns have been added, so turn \<open>t\<close> is filtered with \<open>seen seed_tracks (Suc t)\<close>.
  The turns are the pairs of \<open>zip(preds, seed_tracks)\<close>; \<open>scored_turns\<close> are those
  whose filtered gold is not empty, and \<open>score_calls\<close> invokes the metrics on a list
  of (filtered predictions, filtered gold) pairs in order, appending each result.
\<close>

definition seen :: "cluster_id list list \<Rightarrow> nat \<Rightarrow> cluster_id set" where
  "seen seed_tracks n = \<Union> (set ` set (take n seed_tracks))"

definition turn_filtered_preds ::
  "cluster_id list list \<Rightarrow> cluster_id list list \<Rightarrow> nat \<Rightarrow> cluster_id list" where
  "turn_filtered_preds preds seed_tracks t =
     filter (\<lambda>x. x \<notin> seen seed_tracks (Suc t)) (preds ! t)"

definition turn_filtered_gold ::
  "cluster_id list \<Rightarrow> cluster_id list list \<Rightarrow> nat \<Rightarrow> cluster_id list" where
  "turn_filtered_gold gold seed_tracks t = filter (\<lambda>x. x \<notin> seen seed_tracks (Suc t)) gold"

definition scored_turns ::
  "cluster_id list list \<Rightarrow> cluster_id list \<Rightarrow> cluster_id list list \<Rightarrow> nat list" where
  "scored_turns preds gold seed_tracks =
     filter (\<lambda>t. turn_filtered_gold gold seed_tracks t \<noteq> [])
       [0..<min (length preds) (length seed_tracks)]"

fun score_calls :: "per_turn_vals \<Rightarrow> (cluster_id list \<times> cluster_id list) list \<Rightarrow> int list
    \<Rightarrow> error + per_turn_vals" where
  "score_calls ret [] k_values = Inr ret"
| "score_calls ret ((filtered_preds, filtered_gold) # calls) k_values =
     (case compute_metrics filtered_preds filtered_gold k_values STANDARD_METRICS of
        Inl e \<Rightarrow> Inl e
      | Inr turn_metrics \<Rightarrow> score_calls (append_turn_metrics ret turn_metrics) calls k_values)"

text \<open>The keys of all pairs of a registered metric and a cutoff of \<open>k_values\<close>.\<close>

definition all_keys :: "int list \<Rightarrow> string set" where
  "all_keys ks = {metric_key m k | m k. m \<in> set STANDARD_METRICS \<and> k \<in> set ks}"

text \<open>
  The invariant of the aggregator's dictionary: distinct keys, none of them the key
  \<open>counts\<close> of the report, every summary with \<open>max_turns\<close> buckets.
\<close>

definition agg_inv :: "int \<Rightarrow> agg_metrics \<Rightarrow> bool" where
  "agg_inv max_turns agg \<longleftrightarrow>
     distinct (map fst agg) \<and> ''counts'' \<notin> fst ` set agg \<and>
     (\<forall>n s. map_of agg n = Some s \<longrightarrow> length (per_turn_average s) = nat max_turns)"

text \<open>
  Some requested metric divides by zero at some cutoff of \<open>k_values\<close>: recall on an
  empty gold, precision on an empty slice \<open>preds[:k]\<close>, average precision on either.
\<close>

definition zero_division_case ::
  "cluster_id list \<Rightarrow> cluster_id list \<Rightarrow> int list \<Rightarrow> string list \<Rightarrow> bool" where
  "zero_division_case preds gold ks metrics \<longleftrightarrow>
     (\<exists>k \<in> set ks.
        (''recall'' \<in> set metrics \<and> gold = []) \<or>
        (''precision'' \<in> set metrics \<and> py_take k preds = []) \<or>
        (''map'' \<in> set metrics \<and> (gold = [] \<or> py_take k preds = [])))"

section \<open>Properties of the metric primitives\<close>

lemma reciprocal_rank_loop_pos:
  "0 < i \<Longrightarrow> 0 < reciprocal_rank_loop gold i preds \<longleftrightarrow> (\<exists>p \<in> set preds. p \<in> set gold)"
  by (induction preds arbitrary: i) auto

lemma num_hit_pos: "0 < num_hit gold preds \<longleftrightarrow> (\<exists>p \<in> set preds. p \<in> set gold)"
  by (auto simp: num_hit_def card_gt_0_iff)

text \<open>
  C9. For every gold collection, prediction sequence and cutoff \<open>k\<close>, \<open>hit@k\<close> is 1
  exactly when \<open>reciprocal-rank@k\<close> is strictly positive.
\<close>

theorem hit_iff_reciprocal_rank_pos:
  "get_hit gold preds k = 1 \<longleftrightarrow> 0 < get_reciprocal_rank gold preds k"
  by (simp add: get_hit_def get_reciprocal_rank_def Let_def num_hit_pos
      reciprocal_rank_loop_pos del: One_nat_def)

section \<open>Properties of the running averages\<close>

text \<open>
  C5. One observation increments the count and moves the mean by
  \<open>(value - old_mean) / new_count\<close>; a fresh accumulator fed 2, 4, 6 holds mean 4 and
  count 3.
\<close>

theorem running_average_rule:
  "avg_count (AveragedValue_update a v) = avg_count a + 1 \<and>
   avg_value (AveragedValue_update a v) =
     avg_value a + (v - avg_value a) / of_nat (avg_count (AveragedValue_update a v)) \<and>
   fold (\<lambda>v a. AveragedValue_update a v) [2, 4, 6] AveragedValue_init
     = \<lparr>avg_value = 4, avg_count = 3\<rparr>"
  by (simp add: AveragedValue_update_def AveragedValue_init_def Let_def)


subsection \<open>One call of \<open>_PerTurnMetricSummary.update\<close>\<close>



lemma turn_loop_length:
  "length (per_turn_average (turn_loop s j vs)) = length (per_turn_average s)"
  by (induction vs arbitrary: s j) (simp_all add: Let_def)



subsection \<open>One dialog folded into the aggregator\<close>




section \<open>Average precision\<close>

lemma hits_so_far_Cons:
  "hits_so_far gold (p # ps) (Suc r) = (if p \<in> set gold then 1 else 0) + hits_so_far gold ps r"
  by (simp add: hits_so_far_def)

lemma hits_so_far_0: "hits_so_far gold ps 0 = 0"
  by (simp add: hits_so_far_def)

text \<open>
  The loop invariant: started at rank \<open>i\<close> with \<open>n\<close> hits counted and the total
  \<open>tp\<close>, the loop adds, for each relevant position \<open>j\<close> of the rest, the hits
  counted up to it over its rank \<open>i + j\<close>.
\<close>

lemma average_precision_loop_sum:
  "average_precision_loop gold i n tp ps =
     tp + (\<Sum>j\<leftarrow>[0..<length ps].
             if ps ! j \<in> set gold
             then of_nat (n + hits_so_far gold ps (Suc j)) / of_nat (i + j) else 0)"
proof (induction ps arbitrary: i n tp)
  case Nil
  show ?case by simp
next
  case (Cons p ps)
  have upt: "[0..<length (p # ps)] = 0 # map Suc [0..<length ps]"
    by (simp add: upt_conv_Cons map_Suc_upt del: upt_Suc)
  show ?case
    unfolding upt
    by (simp add: Cons.IH hits_so_far_Cons hits_so_far_0 comp_def ac_simps
        del: upt_Suc cong: if_cong)
qed

lemma average_precision_loop_spec:
  "average_precision_loop gold 1 0 0 topk = spec_precision_sum gold topk"
  by (simp add: average_precision_loop_sum spec_precision_sum_def sum_list_map_filter'
      cong: if_cong)

lemma length_py_take:
  "0 \<le> k \<Longrightarrow> k \<le> int (length xs) \<Longrightarrow> length (py_take k xs) = nat k"
  by (simp add: py_take_def)

text \<open>
  C6, as the specification states it, fails: with three gold items, the single
  prediction \<open>a\<close> and \<open>k = 3\<close> the code divides by the one prediction that the slice
  holds and returns 1, where the formula divides by \<open>min(3, 3)\<close> and gives 1/3.
\<close>

theorem average_precision_counterexample:
  "get_average_precision [''a'', ''b'', ''c''] [''a''] 3 = Inr 1 \<and>
   spec_average_precision [''a'', ''b'', ''c''] [''a''] 3 = 1 / 3 \<and>
   get_average_precision [''a'', ''b'', ''c''] [''a''] 3
     \<noteq> Inr (spec_average_precision [''a'', ''b'', ''c''] [''a''] 3)"
  by (simp add: get_average_precision_def spec_average_precision_def spec_precision_sum_def
      hits_so_far_def py_take_def)

text \<open>
  C6, amended. Average precision at \<open>k\<close> raises \<open>ZeroDivisionError\<close> when gold or the
  slice \<open>preds[:k]\<close> is empty; otherwise it is the sum of (hits so far / rank) over the
  relevant predictions of the slice, divided by the minimum of \<open>|gold|\<close> and the length
  of the slice. For a non-empty gold and \<open>1 \<le> k \<le> len(preds)\<close> the slice has \<open>k\<close>
  elements and the value is the specification's formula.
\<close>

theorem average_precision_value:
  "get_average_precision gold preds k =
     (if gold = [] \<or> py_take k preds = [] then Inl ZeroDivisionError
      else Inr (spec_precision_sum gold (py_take k preds)
                / of_nat (min (length gold) (length (py_take k preds))))) \<and>
   (gold \<noteq> [] \<and> 1 \<le> k \<and> k \<le> int (length preds) \<longrightarrow>
      get_average_precision gold preds k = Inr (spec_average_precision gold preds k))"
proof -
  have a: "get_average_precision gold preds k =
     (if gold = [] \<or> py_take k preds = [] then Inl ZeroDivisionError
      else Inr (spec_precision_sum gold (py_take k preds)
                / of_nat (min (length gold) (length (py_take k preds)))))"
    by (auto simp: get_average_precision_def Let_def average_precision_loop_spec min_def
        simp del: One_nat_def split: if_splits)
  have b: "get_average_precision gold preds k = Inr (spec_average_precision gold preds k)"
    if "gold \<noteq> []" "1 \<le> k" "k \<le> int (length preds)"
  proof -
    from that have l: "length (py_take k preds) = nat k"
      by (simp add: length_py_take)
    with that have "py_take k preds \<noteq> []" by auto
    moreover have "(of_nat (min (length gold) (nat k)) :: rat) = of_int (min (int (length gold)) k)"
      using that by (auto simp: min_def)
    ultimately show ?thesis
      using that by (simp add: a l spec_average_precision_def)
  qed
  from a b show ?thesis by blast
qed

theorem average_precision_value_witness:
  "[''a'', ''b'', ''c''] \<noteq> [] \<and> (1::int) \<le> 2 \<and> 2 \<le> int (length [''a'', ''x'', ''b'']) \<and>
   get_average_precision [''a'', ''b'', ''c''] [''a'', ''x'', ''b''] 2 = Inr (1 / 2) \<and>
   spec_average_precision [''a'', ''b'', ''c''] [''a'', ''x'', ''b''] 2 = 1 / 2"
  using average_precision_value[of "[''a'', ''b'', ''c'']" "[''a'', ''x'', ''b'']" 2]
  by (simp add: spec_average_precision_def spec_precision_sum_def
      hits_so_far_def py_take_def eval_nat_numeral)

section \<open>Validation in \<open>compute_metrics\<close>\<close>

lemma has_duplicates_iff: "has_duplicates xs \<longleftrightarrow> \<not> distinct xs"
proof -
  have "card (set xs) \<le> length xs" by (rule card_length)
  moreover have "distinct xs \<longleftrightarrow> card (set xs) = length xs"
    by (auto simp: distinct_card card_distinct)
  ultimately show ?thesis by (auto simp: has_duplicates_def)
qed

lemma py_max_Nil: "py_max [] = Inl (ValueError MaxOfEmpty)"
  by (simp add: py_max_def)

lemma py_max_gt:
  assumes "ks \<noteq> []"
  shows "\<exists>m. py_max ks = Inr m \<and> (n < m \<longleftrightarrow> (\<exists>k \<in> set ks. n < k))"
proof -
  from assms obtain k ks' where ks: "ks = k # ks'" by (cases ks) auto
  have "fold max ks' k = Max (set (k # ks'))"
    by (simp only: Max.set_eq_fold)
  then have "n < fold max ks' k \<longleftrightarrow> (\<exists>k \<in> set ks. n < k)"
    by (simp add: ks Max_gr_iff del: set_simps) 
  then show ?thesis by (simp add: py_max_def ks)
qed

lemma registered_iff:
  "map_of STANDARD_METRIC_MAP metric = None \<longleftrightarrow> metric \<notin> set STANDARD_METRICS"
  by (auto simp: STANDARD_METRIC_MAP_def STANDARD_METRICS_def)

lemma registered_defined:
  assumes "map_of STANDARD_METRIC_MAP metric = Some f" "gold \<noteq> []" "py_take k preds \<noteq> []"
  shows "\<exists>v. f gold preds k = Inr v"
  using assms
  by (auto simp: STANDARD_METRIC_MAP_def get_average_precision_def get_recall_def
      get_precision_def Let_def split: if_splits)

lemma k_loop_keys:
  "k_loop mv metric f gold preds ks = Inr mv' \<Longrightarrow>
   fst ` set mv' = fst ` set mv \<union> metric_key metric ` set ks \<and>
   (distinct (map fst mv) \<longrightarrow> distinct (map fst mv'))"
proof (induction ks arbitrary: mv)
  case Nil
  then show ?case by simp
next
  case (Cons k ks)
  then show ?case
    by (auto simp: dom_update distinct_update split: sum.splits)
qed

lemma k_loop_succeeds:
  "\<forall>k \<in> set ks. \<exists>v. f gold preds k = Inr v \<Longrightarrow>
   \<exists>mv'. k_loop mv metric f gold preds ks = Inr mv'"
  by (induction ks arbitrary: mv) (auto split: sum.splits)

lemma k_loop_no_value_error:
  "(\<forall>g p k r. f g p k \<noteq> Inl (ValueError r)) \<Longrightarrow>
   k_loop mv metric f gold preds ks \<noteq> Inl (ValueError r)"
  by (induction ks arbitrary: mv) (auto split: sum.splits)

lemma metric_loop_keys:
  "metric_loop mv gold preds ks metrics = Inr mv' \<Longrightarrow>
   fst ` set mv' = fst ` set mv \<union> {metric_key m k | m k. m \<in> set metrics \<and> k \<in> set ks} \<and>
   (distinct (map fst mv) \<longrightarrow> distinct (map fst mv'))"
proof (induction metrics arbitrary: mv)
  case Nil
  then show ?case by simp
next
  case (Cons m metrics)
  from Cons.prems obtain f mv1 where f: "map_of STANDARD_METRIC_MAP m = Some f"
    and k: "k_loop mv m f gold preds ks = Inr mv1"
    and r: "metric_loop mv1 gold preds ks metrics = Inr mv'"
    by (auto split: option.splits sum.splits)
  from k_loop_keys[OF k] Cons.IH[OF r] show ?case
    by auto
qed

lemma metric_loop_succeeds:
  assumes "set metrics \<subseteq> set STANDARD_METRICS" "gold \<noteq> []" "\<forall>k \<in> set ks. py_take k preds \<noteq> []"
  shows "\<exists>mv'. metric_loop mv gold preds ks metrics = Inr mv'"
  using assms(1)
proof (induction metrics arbitrary: mv)
  case Nil
  then show ?case by simp
next
  case (Cons m metrics)
  then obtain f where f: "map_of STANDARD_METRIC_MAP m = Some f"
    using registered_iff[of m] by auto
  have "\<forall>k \<in> set ks. \<exists>v. f gold preds k = Inr v"
    using registered_defined[OF f assms(2)] assms(3) by blast
  then have "\<exists>mv1. k_loop mv m f gold preds ks = Inr mv1"
    by (rule k_loop_succeeds)
  then obtain mv1 where "k_loop mv m f gold preds ks = Inr mv1"
    by blast
  with f Cons show ?case by simp
qed

lemma registered_no_value_error:
  "map_of STANDARD_METRIC_MAP metric = Some f \<Longrightarrow> f g p k \<noteq> Inl (ValueError r)"
  by (auto simp: STANDARD_METRIC_MAP_def get_average_precision_def get_recall_def
      get_precision_def Let_def split: if_splits)

lemma metric_loop_no_value_error:
  "metric_loop mv gold preds ks metrics \<noteq> Inl (ValueError r)"
proof (induction metrics arbitrary: mv)
  case Nil
  then show ?case by simp
next
  case (Cons m metrics)
  show ?case
  proof (cases "map_of STANDARD_METRIC_MAP m")
    case None
    then show ?thesis by simp
  next
    case (Some f)
    have "k_loop mv m f gold preds ks \<noteq> Inl (ValueError r)"
      by (rule k_loop_no_value_error) (simp add: registered_no_value_error[OF Some])
    with Some Cons.IH show ?thesis
      by (auto split: sum.splits)
  qed
qed

subsection \<open>Distinct pairs of a metric and a cutoff have distinct keys\<close>

lemma of_char_digit_char: "d < 10 \<Longrightarrow> of_char (digit_char d) = 48 + d"
  by (simp add: digit_char_def)

lemma digit_char_inj:
  assumes "d < 10" and "e < 10" and "digit_char d = digit_char e"
  shows "d = e"
proof -
  from assms(3) have "(of_char (digit_char d) :: nat) = of_char (digit_char e)"
    by (simp only:)
  then show ?thesis
    by (simp only: of_char_digit_char[OF assms(1)] of_char_digit_char[OF assms(2)] add_left_cancel)
qed

lemma digit_char_not_sign:
  assumes "d < 10"
  shows "digit_char d \<noteq> CHR ''-'' \<and> digit_char d \<noteq> CHR ''@''"
proof -
  have "(of_char (digit_char d) :: nat) \<noteq> of_char (CHR ''-'')"
    and "(of_char (digit_char d) :: nat) \<noteq> of_char (CHR ''@'')"
    using assms by (simp_all only: of_char_digit_char[OF assms]) simp_all
  then show ?thesis
    by (metis)
qed


lemma str_nat_small: "n < 10 \<Longrightarrow> str_nat n = [digit_char n]"
  by (subst str_nat.simps) simp

lemma str_nat_large:
  "\<not> n < 10 \<Longrightarrow> str_nat n = str_nat (n div 10) @ [digit_char (n mod 10)]"
  by (subst str_nat.simps) simp

lemma str_nat_nonempty: "str_nat n \<noteq> []"
  by (cases "n < 10") (simp_all add: str_nat_small str_nat_large)

lemma str_nat_digits: "c \<in> set (str_nat n) \<Longrightarrow> \<exists>d < 10. c = digit_char d"
proof (induction n rule: str_nat.induct)
  case (1 n)
  show ?case
  proof (cases "n < 10")
    case True
    with "1.prems" show ?thesis
      by (auto simp: str_nat_small)
  next
    case False
    have "n mod 10 < 10" by simp
    then have "\<exists>d < 10. digit_char (n mod 10) = digit_char d" by blast
    with False "1.prems" "1.IH" show ?thesis
      by (auto simp: str_nat_large)
  qed
qed

lemma str_nat_inj: "str_nat n = str_nat m \<Longrightarrow> n = m"
proof (induction n arbitrary: m rule: str_nat.induct)
  case (1 n)
  have dn: "n mod 10 < 10" and dm: "m mod 10 < 10"
    by simp_all
  show ?case
  proof (cases "n < 10")
    case n: True
    show ?thesis
    proof (cases "m < 10")
      case True
      with n "1.prems" have "digit_char n = digit_char m"
        by (simp add: str_nat_small)
      with n True show ?thesis
        by (rule digit_char_inj)
    next
      case False
      with n "1.prems" str_nat_nonempty[of "m div 10"] show ?thesis
        by (simp add: str_nat_small str_nat_large)
    qed
  next
    case n: False
    show ?thesis
    proof (cases "m < 10")
      case True
      with n "1.prems" str_nat_nonempty[of "n div 10"] show ?thesis
        by (simp add: str_nat_small str_nat_large)
    next
      case False
      with n "1.prems" have a: "str_nat (n div 10) = str_nat (m div 10)"
        and b: "digit_char (n mod 10) = digit_char (m mod 10)"
        by (simp_all add: str_nat_large)
      from "1.IH"[OF n a] have "n div 10 = m div 10" .
      moreover from dn dm b have "n mod 10 = m mod 10"
        by (rule digit_char_inj)
      ultimately have "n div 10 * 10 + n mod 10 = m div 10 * 10 + m mod 10"
        by simp
      then show ?thesis
        by (simp only: div_mult_mod_eq)
    qed
  qed
qed

lemma sign_not_in_str_nat: "CHR ''-'' \<notin> set (str_nat n)" "CHR ''@'' \<notin> set (str_nat n)"
proof -
  show "CHR ''-'' \<notin> set (str_nat n)"
  proof
    assume "CHR ''-'' \<in> set (str_nat n)"
    then obtain d where "d < 10" "CHR ''-'' = digit_char d"
      using str_nat_digits by blast
    with digit_char_not_sign[of d] show False by simp
  qed
  show "CHR ''@'' \<notin> set (str_nat n)"
  proof
    assume "CHR ''@'' \<in> set (str_nat n)"
    then obtain d where "d < 10" "CHR ''@'' = digit_char d"
      using str_nat_digits by blast
    with digit_char_not_sign[of d] show False by simp
  qed
qed

lemma str_int_inj:
  assumes "str_int k = str_int k'"
  shows "k = k'"
proof (cases "k < 0")
  case k: True
  show ?thesis
  proof (cases "k' < 0")
    case True
    with k assms have "str_nat (nat (- k)) = str_nat (nat (- k'))"
      by (simp add: str_int_def)
    then have "nat (- k) = nat (- k')"
      by (rule str_nat_inj)
    with k True show ?thesis by simp
  next
    case False
    with k assms have e: "str_nat (nat k') = CHR ''-'' # str_nat (nat (- k))"
      by (simp add: str_int_def)
    have "CHR ''-'' \<in> set (str_nat (nat k'))"
      unfolding e by simp
    with sign_not_in_str_nat(1)[of "nat k'"] show ?thesis by simp
  qed
next
  case k: False
  show ?thesis
  proof (cases "k' < 0")
    case True
    with k assms have e: "str_nat (nat k) = CHR ''-'' # str_nat (nat (- k'))"
      by (simp add: str_int_def)
    have "CHR ''-'' \<in> set (str_nat (nat k))"
      unfolding e by simp
    with sign_not_in_str_nat(1)[of "nat k"] show ?thesis by simp
  next
    case False
    with k assms have "str_nat (nat k) = str_nat (nat k')"
      by (simp add: str_int_def)
    then have "nat k = nat k'"
      by (rule str_nat_inj)
    with k False show ?thesis by simp
  qed
qed

lemma at_not_in_str_int: "CHR ''@'' \<notin> set (str_int k)"
  by (simp add: str_int_def sign_not_in_str_nat)

lemma metric_key_inj:
  assumes "metric_key m k = metric_key m' k'" and "m \<in> set STANDARD_METRICS"
  shows "m = m' \<and> k = k'"
proof -
  from assms(2) have "CHR ''@'' \<notin> set m"
    by (auto simp: STANDARD_METRICS_def)
  with assms(1) at_not_in_str_int[of k] have "m = m' \<and> str_int k = str_int k'"
    by (simp add: metric_key_def append_Cons_eq_iff)
  then show ?thesis
    by (simp add: str_int_inj)
qed


lemma k_loop_values:
  assumes "k_loop mv m f gold preds ks = Inr mv'" and "m \<in> set STANDARD_METRICS"
  shows "(\<forall>k \<in> set ks. \<exists>v. f gold preds k = Inr v \<and> map_of mv' (metric_key m k) = Some v) \<and>
    (\<forall>x. x \<notin> metric_key m ` set ks \<longrightarrow> map_of mv' x = map_of mv x)"
  using assms(1)
proof (induction ks arbitrary: mv)
  case Nil
  then show ?case by simp
next
  case (Cons k ks)
  from Cons.prems obtain v where v: "f gold preds k = Inr v"
    and r: "k_loop (AList.update (metric_key m k) v mv) m f gold preds ks = Inr mv'"
    by (auto split: sum.splits)
  note ih = Cons.IH[OF r]
  have "\<exists>v. f gold preds k = Inr v \<and> map_of mv' (metric_key m k) = Some v"
  proof (cases "k \<in> set ks")
    case True
    with ih show ?thesis by blast
  next
    case False
    have "metric_key m k \<notin> metric_key m ` set ks"
    proof
      assume "metric_key m k \<in> metric_key m ` set ks"
      then obtain k' where "k' \<in> set ks" "metric_key m k = metric_key m k'"
        by blast
      with metric_key_inj[OF _ assms(2)] False show False
        by blast
    qed
    with ih have "map_of mv' (metric_key m k) = map_of (AList.update (metric_key m k) v mv) (metric_key m k)"
      by blast
    with v show ?thesis
      by (simp add: update_conv')
  qed
  moreover have "map_of mv' x = map_of mv x" if "x \<notin> metric_key m ` set (k # ks)" for x
  proof -
    from that have "x \<notin> metric_key m ` set ks" and "x \<noteq> metric_key m k"
      by auto
    with ih show ?thesis
      by (simp add: update_conv')
  qed
  ultimately show ?case
    using ih by simp
qed

lemma metric_loop_values:
  assumes "metric_loop mv gold preds ks metrics = Inr mv'"
    and "set metrics \<subseteq> set STANDARD_METRICS"
  shows "(\<forall>m \<in> set metrics. \<forall>k \<in> set ks. \<exists>f v. map_of STANDARD_METRIC_MAP m = Some f \<and>
        f gold preds k = Inr v \<and> map_of mv' (metric_key m k) = Some v) \<and>
    (\<forall>x. x \<notin> {metric_key m k | m k. m \<in> set metrics \<and> k \<in> set ks} \<longrightarrow>
        map_of mv' x = map_of mv x)"
  using assms
proof (induction metrics arbitrary: mv)
  case Nil
  then show ?case by simp
next
  case (Cons m metrics)
  from Cons.prems(1) obtain f mv1 where f: "map_of STANDARD_METRIC_MAP m = Some f"
    and k: "k_loop mv m f gold preds ks = Inr mv1"
    and r: "metric_loop mv1 gold preds ks metrics = Inr mv'"
    by (auto split: option.splits sum.splits)
  from Cons.prems(2) have m: "m \<in> set STANDARD_METRICS" and sub: "set metrics \<subseteq> set STANDARD_METRICS"
    by simp_all
  note kv = k_loop_values[OF k m]
  note ih = Cons.IH[OF r sub]
  have a: "\<exists>f v. map_of STANDARD_METRIC_MAP m = Some f \<and>
        f gold preds j = Inr v \<and> map_of mv' (metric_key m j) = Some v" if j: "j \<in> set ks" for j
  proof (cases "m \<in> set metrics")
    case True
    with ih j show ?thesis by blast
  next
    case False
    have "metric_key m j \<notin> {metric_key m' k | m' k. m' \<in> set metrics \<and> k \<in> set ks}"
    proof
      assume "metric_key m j \<in> {metric_key m' k | m' k. m' \<in> set metrics \<and> k \<in> set ks}"
      then obtain m' k where "m' \<in> set metrics" "metric_key m j = metric_key m' k"
        by blast
      with metric_key_inj[OF _ m] False show False
        by blast
    qed
    with ih have "map_of mv' (metric_key m j) = map_of mv1 (metric_key m j)"
      by blast
    with kv j f show ?thesis
      by fastforce
  qed
  have b: "map_of mv' x = map_of mv x"
    if "x \<notin> {metric_key m' k | m' k. m' \<in> set (m # metrics) \<and> k \<in> set ks}" for x
  proof -
    from that have "x \<notin> {metric_key m' k | m' k. m' \<in> set metrics \<and> k \<in> set ks}"
      and "x \<notin> metric_key m ` set ks"
      by auto
    with ih kv show ?thesis
      by simp
  qed
  show ?case
  proof (intro conjI ballI allI impI)
    fix m' j assume "m' \<in> set (m # metrics)" "j \<in> set ks"
    then show "\<exists>f v. map_of STANDARD_METRIC_MAP m' = Some f \<and>
        f gold preds j = Inr v \<and> map_of mv' (metric_key m' j) = Some v"
      using a ih by (cases "m' = m") auto
  next
    fix x assume "x \<notin> {metric_key m' k | m' k. m' \<in> set (m # metrics) \<and> k \<in> set ks}"
    then show "map_of mv' x = map_of mv x" by (rule b)
  qed
qed

subsection \<open>When a metric divides by zero\<close>

lemma registered_zero_division:
  assumes "map_of STANDARD_METRIC_MAP m = Some f"
  shows "f gold preds k = Inl ZeroDivisionError \<longleftrightarrow>
     (m = ''recall'' \<and> gold = []) \<or> (m = ''precision'' \<and> py_take k preds = []) \<or>
     (m = ''map'' \<and> (gold = [] \<or> py_take k preds = []))"
    and "(\<exists>v. f gold preds k = Inr v) \<or> f gold preds k = Inl ZeroDivisionError"
  using assms
  by (auto simp: STANDARD_METRIC_MAP_def get_average_precision_def get_recall_def
      get_precision_def Let_def min_def split: if_splits)

lemma k_loop_error:
  "k_loop mv m f gold preds ks = Inl e \<Longrightarrow> \<exists>k \<in> set ks. f gold preds k = Inl e"
  by (induction ks arbitrary: mv) (auto split: sum.splits)

lemma metric_loop_error:
  assumes "metric_loop mv gold preds ks metrics = Inl e"
    and "set metrics \<subseteq> set STANDARD_METRICS"
  shows "\<exists>m \<in> set metrics. \<exists>k \<in> set ks. \<exists>f.
           map_of STANDARD_METRIC_MAP m = Some f \<and> f gold preds k = Inl e"
  using assms
proof (induction metrics arbitrary: mv)
  case Nil
  then show ?case by simp
next
  case (Cons m metrics)
  from Cons.prems(2) obtain f where f: "map_of STANDARD_METRIC_MAP m = Some f"
    using registered_iff[of m] by auto
  show ?case
  proof (cases "k_loop mv m f gold preds ks")
    case (Inl e')
    with f Cons.prems(1) have "e' = e" by simp
    with Inl k_loop_error[of mv m f gold preds ks e] f show ?thesis
      by auto
  next
    case (Inr mv1)
    with f Cons.prems(1) have "metric_loop mv1 gold preds ks metrics = Inl e"
      by simp
    from Cons.IH[OF this] Cons.prems(2) show ?thesis
      by auto
  qed
qed

lemma metric_loop_succeeds_gen:
  assumes "set metrics \<subseteq> set STANDARD_METRICS"
    and "\<forall>m \<in> set metrics. \<forall>k \<in> set ks. \<forall>f.
           map_of STANDARD_METRIC_MAP m = Some f \<longrightarrow> (\<exists>v. f gold preds k = Inr v)"
  shows "\<exists>mv'. metric_loop mv gold preds ks metrics = Inr mv'"
proof (cases "metric_loop mv gold preds ks metrics")
  case (Inl e)
  from metric_loop_error[OF Inl assms(1)] assms(2) show ?thesis
    by fastforce
next
  case (Inr mv')
  then show ?thesis by blast
qed

lemma py_take_nonempty: "1 \<le> k \<Longrightarrow> k \<le> int (length xs) \<Longrightarrow> py_take k xs \<noteq> []"
  by (auto simp: py_take_def)

lemma compute_metrics_valid:
  assumes "distinct preds" "distinct gold" "set metrics \<subseteq> set STANDARD_METRICS" "ks \<noteq> []"
    "\<forall>k \<in> set ks. k \<le> int (length preds)"
  shows "compute_metrics preds gold ks metrics = metric_loop [] gold preds ks metrics"
proof -
  from py_max_gt[OF assms(4), of "int (length preds)"] assms(5) obtain m where
    m: "py_max ks = Inr m" "\<not> int (length preds) < m"
    by fastforce
  from assms(3) have n: "(\<exists>m \<in> set metrics. map_of STANDARD_METRIC_MAP m = None) = False"
    by (auto simp: registered_iff)
  from assms m show ?thesis
    unfolding compute_metrics_def has_duplicates_iff n by simp
qed

lemma zero_division_case_iff:
  assumes "set metrics \<subseteq> set STANDARD_METRICS"
  shows "zero_division_case preds gold ks metrics \<longleftrightarrow>
     (\<exists>m \<in> set metrics. \<exists>k \<in> set ks. \<exists>f.
        map_of STANDARD_METRIC_MAP m = Some f \<and> f gold preds k = Inl ZeroDivisionError)"
    (is "?D \<longleftrightarrow> ?E")
proof
  assume ?D
  then obtain k where k: "k \<in> set ks" and
    c: "(''recall'' \<in> set metrics \<and> gold = []) \<or>
        (''precision'' \<in> set metrics \<and> py_take k preds = []) \<or>
        (''map'' \<in> set metrics \<and> (gold = [] \<or> py_take k preds = []))"
    by (auto simp: zero_division_case_def)
  have r: "map_of STANDARD_METRIC_MAP ''recall'' = Some get_recall"
    and p: "map_of STANDARD_METRIC_MAP ''precision'' = Some get_precision"
    and a: "map_of STANDARD_METRIC_MAP ''map'' = Some get_average_precision"
    by (simp_all add: STANDARD_METRIC_MAP_def)
  from c show ?E
  proof (elim disjE conjE)
    assume "''recall'' \<in> set metrics" "gold = []"
    with k r registered_zero_division(1)[OF r, of gold preds k] show ?E by blast
  next
    assume "''precision'' \<in> set metrics" "py_take k preds = []"
    with k p registered_zero_division(1)[OF p, of gold preds k] show ?E by blast
  next
    assume "''map'' \<in> set metrics" "gold = []"
    with k a registered_zero_division(1)[OF a, of gold preds k] show ?E by blast
  next
    assume "''map'' \<in> set metrics" "py_take k preds = []"
    with k a registered_zero_division(1)[OF a, of gold preds k] show ?E by blast
  qed
next
  assume ?E
  then obtain m k f where m: "m \<in> set metrics" and k: "k \<in> set ks"
    and f: "map_of STANDARD_METRIC_MAP m = Some f" and z: "f gold preds k = Inl ZeroDivisionError"
    by blast
  from z registered_zero_division(1)[OF f, of gold preds k]
  have "(m = ''recall'' \<and> gold = []) \<or> (m = ''precision'' \<and> py_take k preds = []) \<or>
     (m = ''map'' \<and> (gold = [] \<or> py_take k preds = []))"
    by simp
  with m k show ?D
    unfolding zero_division_case_def by blast
qed

lemma metric_loop_zero_division:
  assumes "set metrics \<subseteq> set STANDARD_METRICS"
  shows "metric_loop mv gold preds ks metrics = Inl ZeroDivisionError \<longleftrightarrow>
         zero_division_case preds gold ks metrics"
proof
  assume "metric_loop mv gold preds ks metrics = Inl ZeroDivisionError"
  from metric_loop_error[OF this assms] show "zero_division_case preds gold ks metrics"
    by (simp only: zero_division_case_iff[OF assms])
next
  assume "zero_division_case preds gold ks metrics"
  then obtain m k f where m: "m \<in> set metrics" and k: "k \<in> set ks"
    and f: "map_of STANDARD_METRIC_MAP m = Some f" and z: "f gold preds k = Inl ZeroDivisionError"
    unfolding zero_division_case_iff[OF assms] by blast
  show "metric_loop mv gold preds ks metrics = Inl ZeroDivisionError"
  proof (cases "metric_loop mv gold preds ks metrics")
    case (Inl e)
    from metric_loop_error[OF Inl assms] obtain m' k' f' where
      f': "map_of STANDARD_METRIC_MAP m' = Some f'" and e: "f' gold preds k' = Inl e"
      by blast
    from registered_zero_division(2)[OF f', of gold preds k'] e have "e = ZeroDivisionError"
      by auto
    with Inl show ?thesis by simp
  next
    case (Inr mv')
    from metric_loop_values[OF Inr assms] m k obtain f' v where
      "map_of STANDARD_METRIC_MAP m = Some f'" "f' gold preds k = Inr v"
      by blast
    with f z show ?thesis by simp
  qed
qed

text \<open>
  C3, as the specification states it, fails: for the single prediction \<open>a\<close>, an empty
  gold list, \<open>k_values = [1]\<close> and the registered metrics, none of the four conditions
  holds, and yet the call raises \<open>ZeroDivisionError\<close> instead of returning values.
\<close>

theorem compute_metrics_counterexample:
  "distinct [''a''] \<and> distinct ([] :: cluster_id list) \<and>
   set STANDARD_METRICS \<subseteq> fst ` set STANDARD_METRIC_MAP \<and>
   \<not> int (length [''a'']) < fold max [] 1 \<and>
   compute_metrics [''a''] [] [1] STANDARD_METRICS = Inl ZeroDivisionError"
  by (simp add: compute_metrics_def has_duplicates_iff py_max_def STANDARD_METRICS_def
      STANDARD_METRIC_MAP_def get_average_precision_def py_take_def get_hit_def num_hit_def)

text \<open>
  C3, amended. \<open>compute_metrics\<close> raises a \<open>ValueError\<close> exactly when \<open>preds\<close> has
  duplicates, or \<open>gold\<close> has duplicates, or a requested metric is not registered, or
  \<open>k_values\<close> is empty (the builtin \<open>max\<close> raises), or some \<open>k\<close> exceeds
  \<open>len(preds)\<close>. With duplicates the result is the error and no metric value; so it is
  for \<open>preds = [x, x, y]\<close>. Recall at \<open>k\<close> raises \<open>ZeroDivisionError\<close> exactly on an
  empty gold, precision exactly on an empty slice \<open>preds[:k]\<close>, average precision exactly
  when either is empty. When none of the conditions of a \<open>ValueError\<close> holds, the call
  raises \<open>ZeroDivisionError\<close> exactly when, for some \<open>k\<close> of \<open>k_values\<close>, a requested
  metric does so, and otherwise returns a dictionary whose keys are those of all pairs of
  a metric and a \<open>k\<close>, where the value under the key of a pair is the value of that
  metric at that \<open>k\<close>. It returns in particular when \<open>gold\<close> is not empty and every
  slice \<open>preds[:k]\<close> is not empty, as it is for \<open>1 \<le> k \<le> len(preds)\<close>.
\<close>

theorem compute_metrics_validation:
  "((\<exists>r. compute_metrics preds gold ks metrics = Inl (ValueError r)) \<longleftrightarrow>
      (\<not> distinct preds \<or> \<not> distinct gold \<or> (\<exists>m \<in> set metrics. m \<notin> set STANDARD_METRICS)
       \<or> ks = [] \<or> (\<exists>k \<in> set ks. int (length preds) < k))) \<and>
   (\<not> distinct preds \<longrightarrow>
      compute_metrics preds gold ks metrics = Inl (ValueError DuplicatePreds)) \<and>
   (distinct preds \<and> \<not> distinct gold \<longrightarrow>
      compute_metrics preds gold ks metrics = Inl (ValueError DuplicateGold)) \<and>
   compute_metrics [x, x, y] gold ks metrics = Inl (ValueError DuplicatePreds) \<and>
   (distinct preds \<and> distinct gold \<and> set metrics \<subseteq> set STANDARD_METRICS \<and> ks \<noteq> [] \<and>
    (\<forall>k \<in> set ks. k \<le> int (length preds)) \<and>
    gold \<noteq> [] \<and> (\<forall>k \<in> set ks. py_take k preds \<noteq> []) \<longrightarrow>
      (\<exists>mv. compute_metrics preds gold ks metrics = Inr mv \<and>
         fst ` set mv = {metric_key m k | m k. m \<in> set metrics \<and> k \<in> set ks} \<and>
         (\<forall>m \<in> set metrics. \<forall>k \<in> set ks.
            \<exists>f v. map_of STANDARD_METRIC_MAP m = Some f \<and> f gold preds k = Inr v \<and>
              map_of mv (metric_key m k) = Some v))) \<and>
   (get_recall gold preds j = Inl ZeroDivisionError \<longleftrightarrow> gold = []) \<and>
   (get_precision gold preds j = Inl ZeroDivisionError \<longleftrightarrow> py_take j preds = []) \<and>
   (get_average_precision gold preds j = Inl ZeroDivisionError \<longleftrightarrow>
      gold = [] \<or> py_take j preds = []) \<and>
   (distinct preds \<and> distinct gold \<and> set metrics \<subseteq> set STANDARD_METRICS \<and> ks \<noteq> [] \<and>
    (\<forall>k \<in> set ks. k \<le> int (length preds)) \<longrightarrow>
      (compute_metrics preds gold ks metrics = Inl ZeroDivisionError \<longleftrightarrow>
         (\<exists>k \<in> set ks.
            (''recall'' \<in> set metrics \<and> gold = []) \<or>
            (''precision'' \<in> set metrics \<and> py_take k preds = []) \<or>
            (''map'' \<in> set metrics \<and> (gold = [] \<or> py_take k preds = [])))) \<and>
      (compute_metrics preds gold ks metrics \<noteq> Inl ZeroDivisionError \<longrightarrow>
         (\<exists>mv. compute_metrics preds gold ks metrics = Inr mv \<and>
            fst ` set mv = {metric_key m k | m k. m \<in> set metrics \<and> k \<in> set ks} \<and>
            (\<forall>m \<in> set metrics. \<forall>k \<in> set ks.
               \<exists>f v. map_of STANDARD_METRIC_MAP m = Some f \<and> f gold preds k = Inr v \<and>
                 map_of mv (metric_key m k) = Some v)))) \<and>
   ((\<forall>k \<in> set ks. 1 \<le> k \<and> k \<le> int (length preds)) \<longrightarrow>
      (\<forall>k \<in> set ks. py_take k preds \<noteq> []))"
proof -
  have unk: "(\<exists>m \<in> set metrics. map_of STANDARD_METRIC_MAP m = None) \<longleftrightarrow>
      (\<exists>m \<in> set metrics. m \<notin> set STANDARD_METRICS)"
    by (simp add: registered_iff)
  have a: "(\<exists>r. compute_metrics preds gold ks metrics = Inl (ValueError r)) \<longleftrightarrow>
      (\<not> distinct preds \<or> \<not> distinct gold \<or> (\<exists>m \<in> set metrics. m \<notin> set STANDARD_METRICS)
       \<or> ks = [] \<or> (\<exists>k \<in> set ks. int (length preds) < k))"
  proof (cases "ks = []")
    case True
    then show ?thesis
      by (simp add: compute_metrics_def has_duplicates_iff py_max_Nil)
  next
    case False
    from py_max_gt[OF False, of "int (length preds)"] obtain m where
      m: "py_max ks = Inr m" "int (length preds) < m \<longleftrightarrow> (\<exists>k \<in> set ks. int (length preds) < k)"
      by blast
    with False show ?thesis
      unfolding compute_metrics_def has_duplicates_iff unk
      by (simp add: metric_loop_no_value_error)
  qed
  have b: "\<not> distinct preds \<longrightarrow>
      compute_metrics preds gold ks metrics = Inl (ValueError DuplicatePreds)"
    by (simp add: compute_metrics_def has_duplicates_iff)
  have c: "distinct preds \<and> \<not> distinct gold \<longrightarrow>
      compute_metrics preds gold ks metrics = Inl (ValueError DuplicateGold)"
    by (simp add: compute_metrics_def has_duplicates_iff)
  have d: "compute_metrics [x, x, y] gold ks metrics = Inl (ValueError DuplicatePreds)"
    by (simp add: compute_metrics_def has_duplicates_iff)
  have returned: "\<exists>mv. compute_metrics preds gold ks metrics = Inr mv \<and>
         fst ` set mv = {metric_key m k | m k. m \<in> set metrics \<and> k \<in> set ks} \<and>
         (\<forall>m \<in> set metrics. \<forall>k \<in> set ks.
            \<exists>f v. map_of STANDARD_METRIC_MAP m = Some f \<and> f gold preds k = Inr v \<and>
              map_of mv (metric_key m k) = Some v)"
    if sub: "set metrics \<subseteq> set STANDARD_METRICS"
      and eq: "compute_metrics preds gold ks metrics = metric_loop [] gold preds ks metrics"
      and mv: "metric_loop [] gold preds ks metrics = Inr mv" for mv
  proof -
    from eq mv have cm: "compute_metrics preds gold ks metrics = Inr mv"
      by simp
    from metric_loop_keys[OF mv]
    have keys: "fst ` set mv = {metric_key m k | m k. m \<in> set metrics \<and> k \<in> set ks}"
      by simp
    from metric_loop_values[OF mv sub]
    have "\<forall>m \<in> set metrics. \<forall>k \<in> set ks.
            \<exists>f v. map_of STANDARD_METRIC_MAP m = Some f \<and> f gold preds k = Inr v \<and>
              map_of mv (metric_key m k) = Some v"
      by (rule conjunct1)
    with cm keys show ?thesis
      by (intro exI[of _ mv] conjI)
  qed
  have e: "distinct preds \<and> distinct gold \<and> set metrics \<subseteq> set STANDARD_METRICS \<and> ks \<noteq> [] \<and>
    (\<forall>k \<in> set ks. k \<le> int (length preds)) \<and>
    gold \<noteq> [] \<and> (\<forall>k \<in> set ks. py_take k preds \<noteq> []) \<longrightarrow>
      (\<exists>mv. compute_metrics preds gold ks metrics = Inr mv \<and>
         fst ` set mv = {metric_key m k | m k. m \<in> set metrics \<and> k \<in> set ks} \<and>
         (\<forall>m \<in> set metrics. \<forall>k \<in> set ks.
            \<exists>f v. map_of STANDARD_METRIC_MAP m = Some f \<and> f gold preds k = Inr v \<and>
              map_of mv (metric_key m k) = Some v))"
  proof (intro impI, elim conjE)
    assume h: "distinct preds" "distinct gold" "set metrics \<subseteq> set STANDARD_METRICS" "ks \<noteq> []"
      "\<forall>k \<in> set ks. k \<le> int (length preds)" "gold \<noteq> []" "\<forall>k \<in> set ks. py_take k preds \<noteq> []"
    from metric_loop_succeeds[OF h(3) h(6) h(7)] obtain mv where
      mv: "metric_loop [] gold preds ks metrics = Inr mv"
      by blast
    from returned[OF h(3) compute_metrics_valid[OF h(1-5)] mv] show
      "\<exists>mv. compute_metrics preds gold ks metrics = Inr mv \<and>
         fst ` set mv = {metric_key m k | m k. m \<in> set metrics \<and> k \<in> set ks} \<and>
         (\<forall>m \<in> set metrics. \<forall>k \<in> set ks.
            \<exists>f v. map_of STANDARD_METRIC_MAP m = Some f \<and> f gold preds k = Inr v \<and>
              map_of mv (metric_key m k) = Some v)" .
  qed
  have f1: "get_recall gold preds j = Inl ZeroDivisionError \<longleftrightarrow> gold = []"
    by (simp add: get_recall_def Let_def)
  have f2: "get_precision gold preds j = Inl ZeroDivisionError \<longleftrightarrow> py_take j preds = []"
    by (simp add: get_precision_def Let_def)
  have f3: "get_average_precision gold preds j = Inl ZeroDivisionError \<longleftrightarrow>
      gold = [] \<or> py_take j preds = []"
    by (auto simp: get_average_precision_def Let_def min_def split: if_splits)
  have g: "distinct preds \<and> distinct gold \<and> set metrics \<subseteq> set STANDARD_METRICS \<and> ks \<noteq> [] \<and>
    (\<forall>k \<in> set ks. k \<le> int (length preds)) \<longrightarrow>
      (compute_metrics preds gold ks metrics = Inl ZeroDivisionError \<longleftrightarrow>
         (\<exists>k \<in> set ks.
            (''recall'' \<in> set metrics \<and> gold = []) \<or>
            (''precision'' \<in> set metrics \<and> py_take k preds = []) \<or>
            (''map'' \<in> set metrics \<and> (gold = [] \<or> py_take k preds = [])))) \<and>
      (compute_metrics preds gold ks metrics \<noteq> Inl ZeroDivisionError \<longrightarrow>
         (\<exists>mv. compute_metrics preds gold ks metrics = Inr mv \<and>
            fst ` set mv = {metric_key m k | m k. m \<in> set metrics \<and> k \<in> set ks} \<and>
            (\<forall>m \<in> set metrics. \<forall>k \<in> set ks.
               \<exists>f v. map_of STANDARD_METRIC_MAP m = Some f \<and> f gold preds k = Inr v \<and>
                 map_of mv (metric_key m k) = Some v)))"
  proof (intro impI, elim conjE)
    assume h: "distinct preds" "distinct gold" "set metrics \<subseteq> set STANDARD_METRICS" "ks \<noteq> []"
      "\<forall>k \<in> set ks. k \<le> int (length preds)"
    note eq = compute_metrics_valid[OF h]
    have z: "compute_metrics preds gold ks metrics = Inl ZeroDivisionError \<longleftrightarrow>
         (\<exists>k \<in> set ks.
            (''recall'' \<in> set metrics \<and> gold = []) \<or>
            (''precision'' \<in> set metrics \<and> py_take k preds = []) \<or>
            (''map'' \<in> set metrics \<and> (gold = [] \<or> py_take k preds = [])))"
      unfolding eq metric_loop_zero_division[OF h(3)] zero_division_case_def ..
    have r: "\<exists>mv. compute_metrics preds gold ks metrics = Inr mv \<and>
            fst ` set mv = {metric_key m k | m k. m \<in> set metrics \<and> k \<in> set ks} \<and>
            (\<forall>m \<in> set metrics. \<forall>k \<in> set ks.
               \<exists>f v. map_of STANDARD_METRIC_MAP m = Some f \<and> f gold preds k = Inr v \<and>
                 map_of mv (metric_key m k) = Some v)"
      if nz: "compute_metrics preds gold ks metrics \<noteq> Inl ZeroDivisionError"
    proof (cases "metric_loop [] gold preds ks metrics")
      case (Inl err)
      from metric_loop_error[OF Inl h(3)] obtain m' k' f' where
        f': "map_of STANDARD_METRIC_MAP m' = Some f'" and er: "f' gold preds k' = Inl err"
        by blast
      from registered_zero_division(2)[OF f', of gold preds k'] er have "err = ZeroDivisionError"
        by auto
      with Inl eq nz show ?thesis by simp
    next
      case (Inr mv)
      from returned[OF h(3) eq Inr] show ?thesis .
    qed
    from z r show "(compute_metrics preds gold ks metrics = Inl ZeroDivisionError \<longleftrightarrow>
         (\<exists>k \<in> set ks.
            (''recall'' \<in> set metrics \<and> gold = []) \<or>
            (''precision'' \<in> set metrics \<and> py_take k preds = []) \<or>
            (''map'' \<in> set metrics \<and> (gold = [] \<or> py_take k preds = [])))) \<and>
      (compute_metrics preds gold ks metrics \<noteq> Inl ZeroDivisionError \<longrightarrow>
         (\<exists>mv. compute_metrics preds gold ks metrics = Inr mv \<and>
            fst ` set mv = {metric_key m k | m k. m \<in> set metrics \<and> k \<in> set ks} \<and>
            (\<forall>m \<in> set metrics. \<forall>k \<in> set ks.
               \<exists>f v. map_of STANDARD_METRIC_MAP m = Some f \<and> f gold preds k = Inr v \<and>
                 map_of mv (metric_key m k) = Some v)))"
      by (intro conjI impI)
  qed
  have hh: "(\<forall>k \<in> set ks. 1 \<le> k \<and> k \<le> int (length preds)) \<longrightarrow>
      (\<forall>k \<in> set ks. py_take k preds \<noteq> [])"
    by (auto simp: py_take_nonempty)
  show ?thesis
    by (intro conjI a b c d e f1 f2 f3 g hh)
qed

theorem compute_metrics_validation_witness:
  "distinct [''X'', ''A'', ''B''] \<and> distinct [''X'', ''Y''] \<and>
   (2::int) \<le> int (length [''X'', ''A'', ''B'']) \<and>
   py_take 1 [''X'', ''A'', ''B''] \<noteq> [] \<and> py_take 2 [''X'', ''A'', ''B''] \<noteq> [] \<and>
   (\<exists>mv. compute_metrics [''X'', ''A'', ''B''] [''X'', ''Y''] [1, 2] STANDARD_METRICS = Inr mv \<and>
      map_of mv (metric_key ''recall'' 1) = Some (1 / 2) \<and>
      map_of mv (metric_key ''precision'' 2) = Some (1 / 2)) \<and>
   distinct [''a''] \<and> (1::int) \<le> int (length [''a'']) \<and>
   compute_metrics [''a''] [] [1] STANDARD_METRICS = Inl ZeroDivisionError \<and>
   get_precision [] [''a''] 0 = Inl ZeroDivisionError"
proof -
  have h: "distinct [''X'', ''A'', ''B''] \<and> distinct [''X'', ''Y''] \<and>
     set STANDARD_METRICS \<subseteq> set STANDARD_METRICS \<and> [1, 2::int] \<noteq> [] \<and>
     (\<forall>k \<in> set [1, 2]. k \<le> int (length [''X'', ''A'', ''B''])) \<and>
     [''X'', ''Y''] \<noteq> [] \<and> (\<forall>k \<in> set [1, 2]. py_take k [''X'', ''A'', ''B''] \<noteq> [])"
    by (simp add: py_take_def)
  note t = compute_metrics_validation[where preds = "[''X'', ''A'', ''B'']"
      and gold = "[''X'', ''Y'']" and ks = "[1, 2]" and metrics = STANDARD_METRICS
      and x = "''X''" and y = "''Y''" and j = 1]
  from t have "distinct [''X'', ''A'', ''B''] \<and> distinct [''X'', ''Y''] \<and>
     set STANDARD_METRICS \<subseteq> set STANDARD_METRICS \<and> [1, 2::int] \<noteq> [] \<and>
     (\<forall>k \<in> set [1, 2]. k \<le> int (length [''X'', ''A'', ''B''])) \<and>
     [''X'', ''Y''] \<noteq> [] \<and> (\<forall>k \<in> set [1, 2]. py_take k [''X'', ''A'', ''B''] \<noteq> []) \<longrightarrow>
      (\<exists>mv. compute_metrics [''X'', ''A'', ''B''] [''X'', ''Y''] [1, 2] STANDARD_METRICS = Inr mv \<and>
         fst ` set mv = {metric_key m k | m k. m \<in> set STANDARD_METRICS \<and> k \<in> set [1, 2]} \<and>
         (\<forall>m \<in> set STANDARD_METRICS. \<forall>k \<in> set [1, 2].
            \<exists>f v. map_of STANDARD_METRIC_MAP m = Some f \<and>
              f [''X'', ''Y''] [''X'', ''A'', ''B''] k = Inr v \<and>
              map_of mv (metric_key m k) = Some v))"
    by (elim conjE)
  from this h have "\<exists>mv. compute_metrics [''X'', ''A'', ''B''] [''X'', ''Y''] [1, 2] STANDARD_METRICS
         = Inr mv \<and>
         fst ` set mv = {metric_key m k | m k. m \<in> set STANDARD_METRICS \<and> k \<in> set [1, 2]} \<and>
         (\<forall>m \<in> set STANDARD_METRICS. \<forall>k \<in> set [1, 2].
            \<exists>f v. map_of STANDARD_METRIC_MAP m = Some f \<and>
              f [''X'', ''Y''] [''X'', ''A'', ''B''] k = Inr v \<and>
              map_of mv (metric_key m k) = Some v)"
    by (rule mp)
  then obtain mv where
    mv: "compute_metrics [''X'', ''A'', ''B''] [''X'', ''Y''] [1, 2] STANDARD_METRICS = Inr mv"
    and v: "\<forall>m \<in> set STANDARD_METRICS. \<forall>k \<in> set [1, 2].
       \<exists>f v. map_of STANDARD_METRIC_MAP m = Some f \<and>
         f [''X'', ''Y''] [''X'', ''A'', ''B''] k = Inr v \<and>
         map_of mv (metric_key m k) = Some v"
    by (elim exE conjE)
  have m: "''recall'' \<in> set STANDARD_METRICS" "''precision'' \<in> set STANDARD_METRICS"
    by (simp_all add: STANDARD_METRICS_def)
  have k: "(1::int) \<in> set [1, 2]" "(2::int) \<in> set [1, 2]"
    by simp_all
  from bspec[OF bspec[OF v m(1)] k(1)]
  have "\<exists>f v. map_of STANDARD_METRIC_MAP ''recall'' = Some f \<and>
         f [''X'', ''Y''] [''X'', ''A'', ''B''] 1 = Inr v \<and>
         map_of mv (metric_key ''recall'' 1) = Some v" .
  then have r: "map_of mv (metric_key ''recall'' 1) = Some (1 / 2)"
    by (auto simp: STANDARD_METRIC_MAP_def get_recall_def num_hit_def py_take_def Let_def)
  from bspec[OF bspec[OF v m(2)] k(2)]
  have "\<exists>f v. map_of STANDARD_METRIC_MAP ''precision'' = Some f \<and>
         f [''X'', ''Y''] [''X'', ''A'', ''B''] 2 = Inr v \<and>
         map_of mv (metric_key ''precision'' 2) = Some v" .
  then have p: "map_of mv (metric_key ''precision'' 2) = Some (1 / 2)"
    by (auto simp: STANDARD_METRIC_MAP_def get_precision_def num_hit_def py_take_def Let_def)
  from mv r p have ok: "\<exists>mv. compute_metrics [''X'', ''A'', ''B''] [''X'', ''Y''] [1, 2]
        STANDARD_METRICS = Inr mv \<and>
      map_of mv (metric_key ''recall'' 1) = Some (1 / 2) \<and>
      map_of mv (metric_key ''precision'' 2) = Some (1 / 2)"
    by (intro exI[of _ mv] conjI)
  note u = compute_metrics_validation[where preds = "[''a'']" and gold = "[]" and ks = "[1]"
      and metrics = STANDARD_METRICS and x = "''X''" and y = "''Y''" and j = 0]
  have h2: "distinct [''a''] \<and> distinct ([] :: cluster_id list) \<and>
     set STANDARD_METRICS \<subseteq> set STANDARD_METRICS \<and> [1::int] \<noteq> [] \<and>
     (\<forall>k \<in> set [1]. k \<le> int (length [''a'']))"
    by simp
  from u have "distinct [''a''] \<and> distinct ([] :: cluster_id list) \<and>
     set STANDARD_METRICS \<subseteq> set STANDARD_METRICS \<and> [1::int] \<noteq> [] \<and>
     (\<forall>k \<in> set [1]. k \<le> int (length [''a''])) \<longrightarrow>
      (compute_metrics [''a''] [] [1] STANDARD_METRICS = Inl ZeroDivisionError \<longleftrightarrow>
         (\<exists>k \<in> set [1].
            (''recall'' \<in> set STANDARD_METRICS \<and> ([] :: cluster_id list) = []) \<or>
            (''precision'' \<in> set STANDARD_METRICS \<and> py_take k [''a''] = []) \<or>
            (''map'' \<in> set STANDARD_METRICS \<and>
               (([] :: cluster_id list) = [] \<or> py_take k [''a''] = [])))) \<and>
      (compute_metrics [''a''] [] [1] STANDARD_METRICS \<noteq> Inl ZeroDivisionError \<longrightarrow>
         (\<exists>mv. compute_metrics [''a''] [] [1] STANDARD_METRICS = Inr mv \<and>
            fst ` set mv = {metric_key m k | m k. m \<in> set STANDARD_METRICS \<and> k \<in> set [1]} \<and>
            (\<forall>m \<in> set STANDARD_METRICS. \<forall>k \<in> set [1].
               \<exists>f v. map_of STANDARD_METRIC_MAP m = Some f \<and> f [] [''a''] k = Inr v \<and>
                 map_of mv (metric_key m k) = Some v)))"
    by (elim conjE)
  from this h2 have "compute_metrics [''a''] [] [1] STANDARD_METRICS = Inl ZeroDivisionError \<longleftrightarrow>
         (\<exists>k \<in> set [1].
            (''recall'' \<in> set STANDARD_METRICS \<and> ([] :: cluster_id list) = []) \<or>
            (''precision'' \<in> set STANDARD_METRICS \<and> py_take k [''a''] = []) \<or>
            (''map'' \<in> set STANDARD_METRICS \<and>
               (([] :: cluster_id list) = [] \<or> py_take k [''a''] = [])))"
    by (rule conjunct1[OF mp])
  then have z: "compute_metrics [''a''] [] [1] STANDARD_METRICS = Inl ZeroDivisionError"
    by (simp add: STANDARD_METRICS_def)
  from u have "get_precision [] [''a''] 0 = Inl ZeroDivisionError \<longleftrightarrow> py_take 0 [''a''] = []"
    by (elim conjE)
  then have q: "get_precision [] [''a''] 0 = Inl ZeroDivisionError"
    by (simp add: py_take_def)
  from ok z q show ?thesis
    by (simp add: py_take_def)
qed

section \<open>The per-turn scorer: seen set, skipped turns\<close>

lemma seen_0: "seen seed_tracks 0 = {}"
  by (simp add: seen_def)

lemma seen_Suc:
  "t < length seed_tracks \<Longrightarrow> seen seed_tracks (Suc t) = seen seed_tracks t \<union> set (seed_tracks ! t)"
  by (simp add: seen_def take_Suc_conv_app_nth Un_commute)

lemma seen_mono: "m \<le> n \<Longrightarrow> seen seed_tracks m \<subseteq> seen seed_tracks n"
  unfolding seen_def using set_take_subset_set_take[of m n seed_tracks] by blast

lemma seen_Cons: "seen (s # ss) (Suc n) = set s \<union> seen ss n"
  by (simp add: seen_def)

lemma per_turn_loop_turns:
  "per_turn_loop ret prev (zip preds seed_tracks) gold ks =
     score_calls ret
       (map (\<lambda>t. (filter_tracks (preds ! t) (prev \<union> seen seed_tracks (Suc t)),
                  filter_tracks gold (prev \<union> seen seed_tracks (Suc t))))
          (filter (\<lambda>t. filter_tracks gold (prev \<union> seen seed_tracks (Suc t)) \<noteq> [])
             [0..<min (length preds) (length seed_tracks)])) ks"
proof (induction preds arbitrary: seed_tracks ret prev)
  case Nil
  show ?case by simp
next
  case (Cons p preds)
  show ?case
  proof (cases seed_tracks)
    case Nil
    then show ?thesis by simp
  next
    case (Cons s ss)
    have upt: "[0..<min (length (p # preds)) (length (s # ss))]
        = 0 # map Suc [0..<min (length preds) (length ss)]"
      by (simp add: upt_conv_Cons map_Suc_upt del: upt_Suc)
    show ?thesis
      unfolding Cons upt
      by (simp add: Cons.IH Let_def filter_map comp_def seen_Cons seen_0 Un_assoc
          del: upt_Suc split: sum.splits)
  qed
qed

lemma compute_metrics_per_turn_turns:
  "compute_metrics_per_turn preds gold seed_tracks ks =
     score_calls []
       (map (\<lambda>t. (turn_filtered_preds preds seed_tracks t, turn_filtered_gold gold seed_tracks t))
          (scored_turns preds gold seed_tracks)) ks"
  by (simp add: compute_metrics_per_turn_def per_turn_loop_turns scored_turns_def
      turn_filtered_preds_def turn_filtered_gold_def filter_tracks_def)


lemma filtered_gold_stays_empty:
  assumes "turn_filtered_gold gold seed_tracks t = []" and "t \<le> t'"
  shows "turn_filtered_gold gold seed_tracks t' = []"
proof -
  from assms(2) have "seen seed_tracks (Suc t) \<subseteq> seen seed_tracks (Suc t')"
    by (simp add: seen_mono)
  with assms(1) show ?thesis
    by (auto simp: turn_filtered_gold_def filter_empty_conv)
qed

lemma scored_turns_truncate:
  assumes "t < length preds" "t < length seed_tracks" "turn_filtered_gold gold seed_tracks t = []"
  shows "scored_turns preds gold seed_tracks = scored_turns (take t preds) gold seed_tracks"
    and "set (scored_turns preds gold seed_tracks) \<subseteq> {..<t}"
proof -
  let ?n = "min (length preds) (length seed_tracks)"
  let ?P = "\<lambda>t. turn_filtered_gold gold seed_tracks t \<noteq> []"
  from assms have tn: "t \<le> ?n" by simp
  then have "[0..<?n] = [0..<t] @ [t..<?n]"
    using upt_add_eq_append[of 0 t "?n - t"] by simp
  moreover have "filter ?P [t..<?n] = []"
    using filtered_gold_stays_empty[OF assms(3)] by (auto simp: filter_empty_conv)
  ultimately have f: "filter ?P [0..<?n] = filter ?P [0..<t]"
    by simp
  from assms have "min (length (take t preds)) (length seed_tracks) = t"
    by simp
  with f show "scored_turns preds gold seed_tracks = scored_turns (take t preds) gold seed_tracks"
    by (simp add: scored_turns_def)
  from f show "set (scored_turns preds gold seed_tracks) \<subseteq> {..<t}"
    by (auto simp: scored_turns_def)
qed

lemma per_turn_truncate:
  assumes "t < length preds" "t < length seed_tracks" "turn_filtered_gold gold seed_tracks t = []"
  shows "compute_metrics_per_turn preds gold seed_tracks ks =
         compute_metrics_per_turn (take t preds) gold seed_tracks ks"
proof -
  have "map (\<lambda>t. (turn_filtered_preds preds seed_tracks t, turn_filtered_gold gold seed_tracks t))
          (scored_turns preds gold seed_tracks)
      = map (\<lambda>u. (turn_filtered_preds (take t preds) seed_tracks u,
                  turn_filtered_gold gold seed_tracks u))
          (scored_turns preds gold seed_tracks)"
    using scored_turns_truncate(2)[OF assms]
    by (intro map_cong) (auto simp: turn_filtered_preds_def)
  moreover have "scored_turns (take t preds) gold seed_tracks = scored_turns preds gold seed_tracks"
    by (rule scored_turns_truncate(1)[OF assms, symmetric])
  ultimately show ?thesis
    by (simp only: compute_metrics_per_turn_turns)
qed

lemma dialog_loop_cong:
  assumes "compute_metrics_per_turn ps g ss ks = compute_metrics_per_turn ps' g ss ks"
    and "gold d = Some g" and "seed_tracks d = Some ss"
  shows "dialog_loop mt agg (earlier @ (d, ps) # later) gold seed_tracks ks =
         dialog_loop mt agg (earlier @ (d, ps') # later) gold seed_tracks ks"
proof (induction earlier arbitrary: agg)
  case Nil
  from assms show ?case by simp
next
  case (Cons x earlier)
  obtain d' p' where "x = (d', p')" by (cases x)
  with Cons.IH show ?case
    by (simp split: option.splits sum.splits)
qed

lemma skip_step:
  "filter_tracks gold (prev \<union> set ts) = [] \<Longrightarrow>
   per_turn_loop ret prev ((tp, ts) # rest) gold ks = per_turn_loop ret (prev \<union> set ts) rest gold ks"
  by (simp add: Let_def)

text \<open>
  C2. A turn \<open>t\<close> whose filtered gold is empty is not among the scored turns: the loop
  passes \<open>ret\<close> on unchanged and only the seen set grows. The dialog's result is the
  result of the dialog cut off before turn \<open>t\<close> (no later turn is scored either, the
  seen set only grows) and does not depend on the predictions of turn \<open>t\<close>. Hence
  \<open>score_dataset\<close> returns the same means and counts as without the turn.
\<close>

theorem skipped_turn_contributes_nothing:
  assumes "t < length preds" and "t < length seed_tracks"
    and "turn_filtered_gold gold seed_tracks t = []"
  shows "t \<notin> set (scored_turns preds gold seed_tracks) \<and>
    compute_metrics_per_turn preds gold seed_tracks ks =
      compute_metrics_per_turn (take t preds) gold seed_tracks ks \<and>
    compute_metrics_per_turn (preds[t := other_preds]) gold seed_tracks ks =
      compute_metrics_per_turn preds gold seed_tracks ks \<and>
    (\<forall>ret prev tp ts rest. filter_tracks gold (prev \<union> set ts) = [] \<longrightarrow>
       per_turn_loop ret prev ((tp, ts) # rest) gold ks =
       per_turn_loop ret (prev \<union> set ts) rest gold ks) \<and>
    (gold_of d = Some gold \<and> seeds_of d = Some seed_tracks \<longrightarrow>
       score_dataset (earlier @ (d, preds) # later) gold_of seeds_of ks max_turns =
       score_dataset (earlier @ (d, take t preds) # later) gold_of seeds_of ks max_turns)"
proof -
  have a: "t \<notin> set (scored_turns preds gold seed_tracks)"
    using assms(3) by (simp add: scored_turns_def)
  have b: "compute_metrics_per_turn preds gold seed_tracks ks =
      compute_metrics_per_turn (take t preds) gold seed_tracks ks"
    by (rule per_turn_truncate[OF assms])
  have "compute_metrics_per_turn (preds[t := other_preds]) gold seed_tracks ks =
      compute_metrics_per_turn (take t (preds[t := other_preds])) gold seed_tracks ks"
    using assms by (intro per_turn_truncate) simp_all
  with b have c: "compute_metrics_per_turn (preds[t := other_preds]) gold seed_tracks ks =
      compute_metrics_per_turn preds gold seed_tracks ks"
    by simp
  have d: "score_dataset (earlier @ (d, preds) # later) gold_of seeds_of ks max_turns =
       score_dataset (earlier @ (d, take t preds) # later) gold_of seeds_of ks max_turns"
    if "gold_of d = Some gold" "seeds_of d = Some seed_tracks"
  proof -
    from b that
    have "dialog_loop max_turns [] (earlier @ (d, preds) # later) gold_of seeds_of ks =
          dialog_loop max_turns [] (earlier @ (d, take t preds) # later) gold_of seeds_of ks"
      by (rule dialog_loop_cong)
    then show ?thesis
      by (simp add: score_dataset_def)
  qed
  from a b c d show ?thesis
    by (simp add: Let_def)
qed


theorem skipped_turn_contributes_nothing_witness:
  "(2::nat) < length [[''A'', ''X''], [''B'', ''Y''], [''Z'', ''W'']] \<and>
   (2::nat) < length [[], [''A''], [''B'']] \<and>
   turn_filtered_gold [''A'', ''B''] [[], [''A''], [''B'']] 2 = [] \<and>
   compute_metrics_per_turn [[''A'', ''X''], [''B'', ''Y''], [''Z'', ''W'']] [''A'', ''B'']
       [[], [''A''], [''B'']] [1] =
     compute_metrics_per_turn [[''A'', ''X''], [''B'', ''Y'']] [''A'', ''B'']
       [[], [''A''], [''B'']] [1] \<and>
   score_dataset [(''d'', [[''A'', ''X''], [''B'', ''Y''], [''Z'', ''W'']])]
       [''d'' \<mapsto> [''A'', ''B'']] [''d'' \<mapsto> [[], [''A''], [''B'']]] [1] 3 =
     score_dataset [(''d'', [[''A'', ''X''], [''B'', ''Y'']])]
       [''d'' \<mapsto> [''A'', ''B'']] [''d'' \<mapsto> [[], [''A''], [''B'']]] [1] 3"
  using skipped_turn_contributes_nothing[where t = 2
      and preds = "[[''A'', ''X''], [''B'', ''Y''], [''Z'', ''W'']]"
      and gold = "[''A'', ''B'']" and seed_tracks = "[[], [''A''], [''B'']]" and ks = "[1]"
      and gold_of = "[''d'' \<mapsto> [''A'', ''B'']]"
      and seeds_of = "[''d'' \<mapsto> [[], [''A''], [''B'']]]" and d = "''d''"
      and earlier = "[]" and later = "[]" and max_turns = 3 and other_preds = "[]"]
  by (simp add: turn_filtered_gold_def seen_def)

text \<open>
  C1. The scorer's result is that of scoring, in order, the turns \<open>t\<close> of
  \<open>zip(preds, seed_tracks)\<close> whose filtered gold is not empty, each on turn \<open>t\<close>'s
  predictions and on the dialog gold, both without the members of the seen set, order
  kept. The seen set is empty at the start, grows at turn \<open>t\<close> by the seed batch of
  turn \<open>t\<close> and so never shrinks. For gold A, B, C, predictions [A, B] then [A, C] and
  seed batches [] then [A], turn 1 is scored on [C] against [B, C].
\<close>

theorem seed_exclusion:
  "compute_metrics_per_turn preds gold seed_tracks ks =
     score_calls []
       (map (\<lambda>t. (turn_filtered_preds preds seed_tracks t, turn_filtered_gold gold seed_tracks t))
          (scored_turns preds gold seed_tracks)) ks \<and>
   seen seed_tracks 0 = {} \<and>
   (\<forall>t < length seed_tracks.
      seen seed_tracks (Suc t) = seen seed_tracks t \<union> set (seed_tracks ! t)) \<and>
   (\<forall>m n. m \<le> n \<longrightarrow> seen seed_tracks m \<subseteq> seen seed_tracks n) \<and>
   turn_filtered_preds [[''A'', ''B''], [''A'', ''C'']] [[], [''A'']] 1 = [''C''] \<and>
   turn_filtered_gold [''A'', ''B'', ''C''] [[], [''A'']] 1 = [''B'', ''C''] \<and>
   compute_metrics_per_turn [[''A'', ''B''], [''A'', ''C'']] [''A'', ''B'', ''C''] [[], [''A'']] ks =
     score_calls [] [([''A'', ''B''], [''A'', ''B'', ''C'']), ([''C''], [''B'', ''C''])] ks"
proof -
  have ex: "compute_metrics_per_turn [[''A'', ''B''], [''A'', ''C'']] [''A'', ''B'', ''C'']
      [[], [''A'']] ks =
     score_calls [] [([''A'', ''B''], [''A'', ''B'', ''C'']), ([''C''], [''B'', ''C''])] ks"
    by (simp add: compute_metrics_per_turn_def filter_tracks_def Let_def split: sum.splits)
  have "turn_filtered_preds [[''A'', ''B''], [''A'', ''C'']] [[], [''A'']] 1 = [''C'']"
    "turn_filtered_gold [''A'', ''B'', ''C''] [[], [''A'']] 1 = [''B'', ''C'']"
    by (simp_all add: turn_filtered_preds_def turn_filtered_gold_def seen_def)
  with ex show ?thesis
    by (simp add: compute_metrics_per_turn_turns seen_0 seen_Suc seen_mono)
qed

theorem seed_exclusion_witness:
  "(1::nat) < length [[], [''A'']] \<and>
   seen [[], [''A'']] (Suc 1) = seen [[], [''A'']] 1 \<union> set ([[], [''A'']] ! 1) \<and>
   seen [[], [''A'']] (Suc 1) = {''A''} \<and>
   (1::nat) \<le> 2 \<and> seen [[], [''A'']] 1 \<subseteq> seen [[], [''A'']] 2"
  using seed_exclusion[where seed_tracks = "[[], [''A'']]" and preds = "[]" and gold = "[]"
      and ks = "[]"]
  by (simp add: seen_def)

section \<open>The shape of the per-turn output\<close>

lemma dd_append_lookup:
  "map_of (dd_append n v ret) x =
     (if x = n then Some ((case map_of ret n of None \<Rightarrow> [] | Some vs \<Rightarrow> vs) @ [v])
      else map_of ret x)"
  by (simp add: dd_append_def update_conv')

lemma dd_append_keys: "fst ` set (dd_append n v ret) = insert n (fst ` set ret)"
  by (simp add: dd_append_def dom_update)

lemma dd_append_distinct: "distinct (map fst ret) \<Longrightarrow> distinct (map fst (dd_append n v ret))"
  by (simp add: dd_append_def distinct_update)

lemma append_turn_metrics_Nil: "append_turn_metrics ret [] = ret"
  by (simp add: append_turn_metrics_def)

lemma append_turn_metrics_Cons:
  "append_turn_metrics ret ((n, v) # m) = append_turn_metrics (dd_append n v ret) m"
  by (simp add: append_turn_metrics_def)

lemma append_turn_metrics_keys:
  "fst ` set (append_turn_metrics ret m) = fst ` set ret \<union> fst ` set m"
proof (induction m arbitrary: ret)
  case Nil
  show ?case by (simp add: append_turn_metrics_Nil)
next
  case (Cons p m)
  obtain n v where "p = (n, v)" by (cases p)
  then show ?case
    by (simp add: append_turn_metrics_Cons Cons.IH dd_append_keys)
qed

lemma append_turn_metrics_distinct:
  "distinct (map fst ret) \<Longrightarrow> distinct (map fst (append_turn_metrics ret m))"
proof (induction m arbitrary: ret)
  case Nil
  then show ?case by (simp add: append_turn_metrics_Nil)
next
  case (Cons p m)
  obtain n v where "p = (n, v)" by (cases p)
  with Cons show ?case
    by (simp add: append_turn_metrics_Cons dd_append_distinct)
qed

lemma append_turn_metrics_lookup:
  "distinct (map fst m) \<Longrightarrow>
   map_of (append_turn_metrics ret m) x =
     (case map_of m x of
        None \<Rightarrow> map_of ret x
      | Some v \<Rightarrow> Some ((case map_of ret x of None \<Rightarrow> [] | Some vs \<Rightarrow> vs) @ [v]))"
proof (induction m arbitrary: ret)
  case Nil
  show ?case by (simp add: append_turn_metrics_Nil)
next
  case (Cons p m)
  obtain n v where p: "p = (n, v)" by (cases p)
  from Cons.prems p have d: "distinct (map fst m)" and nn: "map_of m n = None"
    by (auto simp: map_of_eq_None_iff)
  show ?case
    using nn by (auto simp: p append_turn_metrics_Cons Cons.IH[OF d] dd_append_lookup
        split: option.splits)
qed

lemma compute_metrics_keys:
  assumes "compute_metrics preds gold ks metrics = Inr mv"
  shows "distinct (map fst mv)"
    and "fst ` set mv = {metric_key m k | m k. m \<in> set metrics \<and> k \<in> set ks}"
proof -
  from assms have "metric_loop [] gold preds ks metrics = Inr mv"
    by (auto simp: compute_metrics_def split: if_splits sum.splits)
  from metric_loop_keys[OF this]
  show "distinct (map fst mv)"
    and "fst ` set mv = {metric_key m k | m k. m \<in> set metrics \<and> k \<in> set ks}"
    by simp_all
qed

lemma append_turn_metrics_shape:
  assumes "distinct (map fst ret)" and "\<forall>vs \<in> snd ` set ret. length vs = N"
    and "fst ` set ret = (if N = 0 then {} else K)"
    and "distinct (map fst m)" and "fst ` set m = K"
  shows "distinct (map fst (append_turn_metrics ret m))"
    and "\<forall>vs \<in> snd ` set (append_turn_metrics ret m). length vs = Suc N"
    and "fst ` set (append_turn_metrics ret m) = K"
proof -
  let ?r = "append_turn_metrics ret m"
  show d: "distinct (map fst ?r)"
    by (rule append_turn_metrics_distinct[OF assms(1)])
  show k: "fst ` set ?r = K"
    using assms(3,5) by (auto simp: append_turn_metrics_keys split: if_splits)
  show "\<forall>vs \<in> snd ` set ?r. length vs = Suc N"
  proof
    fix vs assume "vs \<in> snd ` set ?r"
    then obtain n where nv: "(n, vs) \<in> set ?r" by auto
    with d have l: "map_of ?r n = Some vs" by simp
    from nv k have "n \<in> fst ` set m" using assms(5) by force
    then obtain v where v: "map_of m n = Some v"
      by (cases "map_of m n") (auto simp: map_of_eq_None_iff)
    from l v have vs: "vs = (case map_of ret n of None \<Rightarrow> [] | Some old \<Rightarrow> old) @ [v]"
      by (simp add: append_turn_metrics_lookup[OF assms(4)])
    show "length vs = Suc N"
    proof (cases "map_of ret n")
      case None
      then have "n \<notin> fst ` set ret" by (simp add: map_of_eq_None_iff)
      moreover from v have "n \<in> K" using assms(5) by (force dest: map_of_SomeD)
      ultimately have "N = 0" using assms(3) by (auto split: if_splits)
      with None vs show ?thesis by simp
    next
      case (Some old)
      then have "old \<in> snd ` set ret" by (force dest: map_of_SomeD)
      with assms(2) have "length old = N" by blast
      with Some vs show ?thesis by simp
    qed
  qed
qed

lemma score_calls_shape:
  assumes "score_calls ret calls ks = Inr ret'"
    and "distinct (map fst ret)" and "\<forall>vs \<in> snd ` set ret. length vs = N"
    and "fst ` set ret = (if N = 0 then {} else all_keys ks)"
  shows "distinct (map fst ret') \<and> (\<forall>vs \<in> snd ` set ret'. length vs = N + length calls) \<and>
    fst ` set ret' = (if N + length calls = 0 then {} else all_keys ks)"
  using assms
proof (induction calls arbitrary: ret N)
  case Nil
  then show ?case by simp
next
  case (Cons c calls)
  obtain fp fg where c: "c = (fp, fg)" by (cases c)
  from Cons.prems(1) c obtain m where
    m: "compute_metrics fp fg ks STANDARD_METRICS = Inr m"
    and r: "score_calls (append_turn_metrics ret m) calls ks = Inr ret'"
    by (auto split: sum.splits)
  from compute_metrics_keys[OF m] have dm: "distinct (map fst m)" and km: "fst ` set m = all_keys ks"
    by (simp_all add: all_keys_def)
  note s = append_turn_metrics_shape[OF Cons.prems(2,3,4) dm km]
  from Cons.IH[OF r s(1) s(2)] s(3) show ?case
    by simp
qed



text \<open>
  C10. When \<open>compute_metrics_per_turn\<close> returns, the keys of the result are distinct,
  every list has as many values as the dialog has turns that were not skipped, and
  the set of keys is empty when every turn was skipped and otherwise the set of the
  keys of all pairs of a registered metric and a member of \<open>k_values\<close>.
\<close>

theorem per_turn_output_shape:
  assumes "compute_metrics_per_turn preds gold seed_tracks ks = Inr ret"
  shows "distinct (map fst ret) \<and>
    (\<forall>vs \<in> snd ` set ret. length vs = length (scored_turns preds gold seed_tracks)) \<and>
    fst ` set ret =
      (if scored_turns preds gold seed_tracks = [] then {}
       else {metric_key m k | m k. m \<in> set STANDARD_METRICS \<and> k \<in> set ks})"
proof -
  from assms have "score_calls []
       (map (\<lambda>t. (turn_filtered_preds preds seed_tracks t, turn_filtered_gold gold seed_tracks t))
          (scored_turns preds gold seed_tracks)) ks = Inr ret"
    by (simp only: compute_metrics_per_turn_turns)
  from score_calls_shape[OF this, of 0] show ?thesis
    by (simp add: all_keys_def)
qed

theorem per_turn_output_shape_witness:
  "compute_metrics_per_turn [[''A'', ''B''], [''A'', ''C'']] [''A'', ''B'', ''C''] [[], [''A'']] [1]
     = Inr [(''hit@1'', [1, 1]), (''map@1'', [1, 1]), (''mrr@1'', [1, 1]),
            (''precision@1'', [1, 1]), (''recall@1'', [1 / 3, 1 / 2])] \<and>
   length (scored_turns [[''A'', ''B''], [''A'', ''C'']] [''A'', ''B'', ''C''] [[], [''A'']]) = 2 \<and>
   {''hit@1'', ''map@1'', ''mrr@1'', ''precision@1'', ''recall@1''} =
     {metric_key m k | m k. m \<in> set STANDARD_METRICS \<and> k \<in> set [1]}"
proof -
  have e: "compute_metrics_per_turn [[''A'', ''B''], [''A'', ''C'']] [''A'', ''B'', ''C'']
      [[], [''A'']] [1]
     = Inr [(''hit@1'', [1, 1]), (''map@1'', [1, 1]), (''mrr@1'', [1, 1]),
            (''precision@1'', [1, 1]), (''recall@1'', [1 / 3, 1 / 2])]"
    by code_simp
  have s: "scored_turns [[''A'', ''B''], [''A'', ''C'']] [''A'', ''B'', ''C''] [[], [''A'']] = [0, 1]"
    by code_simp
  from per_turn_output_shape[OF e] e s show ?thesis
    by simp
qed

lemma get_recall_cases:
  "get_recall gold preds k =
     (if gold = [] then Inl ZeroDivisionError
      else Inr (of_nat (num_hit gold (py_take k preds)) / of_nat (length gold)))"
  by (simp add: get_recall_def Let_def)

lemma compute_metrics_no_zero_division:
  assumes "gold \<noteq> []" and "\<forall>k \<in> set ks. 1 \<le> k"
  shows "compute_metrics preds gold ks STANDARD_METRICS \<noteq> Inl ZeroDivisionError"
proof (cases "ks = []")
  case True
  then show ?thesis
    by (simp add: compute_metrics_def py_max_Nil)
next
  case False
  from py_max_gt[OF False, of "int (length preds)"] obtain m where
    m: "py_max ks = Inr m" "int (length preds) < m \<longleftrightarrow> (\<exists>k \<in> set ks. int (length preds) < k)"
    by blast
  show ?thesis
  proof (cases "\<exists>k \<in> set ks. int (length preds) < k")
    case True
    with m show ?thesis
      by (simp add: compute_metrics_def)
  next
    case False
    with assms(2) have "\<forall>k \<in> set ks. py_take k preds \<noteq> []"
      by (fastforce simp: py_take_def)
    from metric_loop_succeeds[OF subset_refl assms(1) this]
    obtain mv where "metric_loop [] gold preds ks STANDARD_METRICS = Inr mv"
      by blast
    with m False show ?thesis
      by (simp add: compute_metrics_def)
  qed
qed

lemma score_calls_no_zero_division:
  assumes "\<forall>c \<in> set calls. snd c \<noteq> []" and "\<forall>k \<in> set ks. 1 \<le> k"
  shows "score_calls ret calls ks \<noteq> Inl ZeroDivisionError"
  using assms(1)
proof (induction calls arbitrary: ret)
  case Nil
  show ?case by simp
next
  case (Cons c calls)
  obtain fp fg where c: "c = (fp, fg)" by (cases c)
  with Cons.prems have "fg \<noteq> []" by simp
  from compute_metrics_no_zero_division[OF this assms(2), of fp] Cons c show ?case
    by (auto split: sum.splits)
qed

text \<open>
  C8. \<open>get_recall\<close> divides the number of hits by the length of gold and raises
  \<open>ZeroDivisionError\<close> exactly for an empty gold. The per-turn scorer calls the
  metrics on the scored turns only, in order, and the filtered gold of a scored turn
  is not empty, so that no call of \<open>get_recall\<close> it makes fails. With cutoffs that are
  all at least 1 the scorer raises no \<open>ZeroDivisionError\<close> at all.
\<close>

theorem recall_division_unreachable:
  "get_recall gold preds k =
     (if gold = [] then Inl ZeroDivisionError
      else Inr (of_nat (num_hit gold (py_take k preds)) / of_nat (length gold))) \<and>
   (get_recall gold preds k = Inl ZeroDivisionError \<longleftrightarrow> gold = []) \<and>
   compute_metrics_per_turn turn_preds dialog_gold seed_tracks ks =
     score_calls []
       (map (\<lambda>t. (turn_filtered_preds turn_preds seed_tracks t,
                  turn_filtered_gold dialog_gold seed_tracks t))
          (scored_turns turn_preds dialog_gold seed_tracks)) ks \<and>
   (\<forall>t \<in> set (scored_turns turn_preds dialog_gold seed_tracks).
      turn_filtered_gold dialog_gold seed_tracks t \<noteq> [] \<and>
      get_recall (turn_filtered_gold dialog_gold seed_tracks t)
        (turn_filtered_preds turn_preds seed_tracks t) k \<noteq> Inl ZeroDivisionError) \<and>
   ((\<forall>k \<in> set ks. 1 \<le> k) \<longrightarrow>
      compute_metrics_per_turn turn_preds dialog_gold seed_tracks ks \<noteq> Inl ZeroDivisionError)"
proof -
  have a: "\<forall>t \<in> set (scored_turns turn_preds dialog_gold seed_tracks).
      turn_filtered_gold dialog_gold seed_tracks t \<noteq> []"
    by (simp add: scored_turns_def)
  have "compute_metrics_per_turn turn_preds dialog_gold seed_tracks ks \<noteq> Inl ZeroDivisionError"
    if "\<forall>k \<in> set ks. 1 \<le> k"
    unfolding compute_metrics_per_turn_turns
    by (rule score_calls_no_zero_division[OF _ that]) (use a in auto)
  with a show ?thesis
    by (simp add: get_recall_cases compute_metrics_per_turn_turns)
qed

theorem recall_division_unreachable_witness:
  "(1::nat) \<in> set (scored_turns [[''A'', ''B''], [''A'', ''C'']] [''A'', ''B'', ''C''] [[], [''A'']]) \<and>
   (1::int) \<le> 1 \<and>
   turn_filtered_gold [''A'', ''B'', ''C''] [[], [''A'']] 1 \<noteq> [] \<and>
   compute_metrics_per_turn [[''A'', ''B''], [''A'', ''C'']] [''A'', ''B'', ''C''] [[], [''A'']] [1]
     \<noteq> Inl ZeroDivisionError"
proof -
  have s: "scored_turns [[''A'', ''B''], [''A'', ''C'']] [''A'', ''B'', ''C''] [[], [''A'']] = [0, 1]"
    by code_simp
  have h: "\<forall>k \<in> set [1::int]. 1 \<le> k"
    by simp
  note r = recall_division_unreachable[where turn_preds = "[[''A'', ''B''], [''A'', ''C'']]"
      and dialog_gold = "[''A'', ''B'', ''C'']" and seed_tracks = "[[], [''A'']]" and ks = "[1]"
      and gold = "[]" and preds = "[]" and k = 1]
  from r h have d: "compute_metrics_per_turn [[''A'', ''B''], [''A'', ''C'']] [''A'', ''B'', ''C'']
      [[], [''A'']] [1] \<noteq> Inl ZeroDivisionError"
    by blast
  from r have "\<forall>t \<in> set (scored_turns [[''A'', ''B''], [''A'', ''C'']] [''A'', ''B'', ''C'']
      [[], [''A'']]). turn_filtered_gold [''A'', ''B'', ''C''] [[], [''A'']] t \<noteq> []"
    by blast
  with s have "turn_filtered_gold [''A'', ''B'', ''C''] [[], [''A'']] 1 \<noteq> []"
    by simp
  with d s h show ?thesis
    by simp
qed

section \<open>The report of \<open>score_dataset\<close>\<close>

lemma counts_not_key: "''counts'' \<notin> all_keys ks"
proof
  assume "''counts'' \<in> all_keys ks"
  then obtain m k where "''counts'' = metric_key m k"
    by (auto simp: all_keys_def)
  then have "CHR ''@'' \<in> set ''counts''"
    by (simp add: metric_key_def)
  then show False by simp
qed

lemma per_turn_result_shape:
  assumes "compute_metrics_per_turn preds gold seed_tracks ks = Inr dm"
  shows "distinct (map fst dm)" and "fst ` set dm \<subseteq> all_keys ks"
    and "\<forall>vs \<in> snd ` set dm. vs \<noteq> []"
proof -
  from assms have "score_calls []
       (map (\<lambda>t. (turn_filtered_preds preds seed_tracks t, turn_filtered_gold gold seed_tracks t))
          (scored_turns preds gold seed_tracks)) ks = Inr dm"
    by (simp only: compute_metrics_per_turn_turns)
  from score_calls_shape[OF this, of 0]
  have s: "distinct (map fst dm)"
    "\<forall>vs \<in> snd ` set dm. length vs = length (scored_turns preds gold seed_tracks)"
    "fst ` set dm = (if scored_turns preds gold seed_tracks = [] then {} else all_keys ks)"
    by simp_all
  from s(1) show "distinct (map fst dm)" .
  from s(3) show "fst ` set dm \<subseteq> all_keys ks"
    by (simp split: if_splits)
  show "\<forall>vs \<in> snd ` set dm. vs \<noteq> []"
  proof
    fix vs assume v: "vs \<in> snd ` set dm"
    then have "fst ` set dm \<noteq> {}" by auto
    with s(3) have "scored_turns preds gold seed_tracks \<noteq> []"
      by (auto split: if_splits)
    with s(2) v show "vs \<noteq> []" by fastforce
  qed
qed

lemma summary_update_length:
  "PerTurnMetricSummary_update s vs = Inr s' \<Longrightarrow>
   length (per_turn_average s') = length (per_turn_average s)"
  by (auto simp: PerTurnMetricSummary_update_def Let_def turn_loop_length split: if_splits)

lemma agg_update_inv:
  assumes "agg_update mt agg dm = Inr agg'" and "agg_inv mt agg" and "''counts'' \<notin> fst ` set dm"
  shows "agg_inv mt agg'"
  using assms
proof (induction dm arbitrary: agg)
  case Nil
  then show ?case by simp
next
  case (Cons p dm)
  obtain n vs where p: "p = (n, vs)" by (cases p)
  define s where "s = (case map_of agg n of None \<Rightarrow> PerTurnMetricSummary_init mt | Some s \<Rightarrow> s)"
  from Cons.prems(1) p obtain s1 where
    s1: "PerTurnMetricSummary_update s vs = Inr s1"
    and r: "agg_update mt (AList.update n s1 agg) dm = Inr agg'"
    by (auto simp: s_def split: sum.splits)
  from Cons.prems(2) have "length (per_turn_average s) = nat mt"
    by (auto simp: s_def agg_inv_def PerTurnMetricSummary_init_def split: option.splits)
  with summary_update_length[OF s1] have l: "length (per_turn_average s1) = nat mt"
    by simp
  from Cons.prems(2,3) p l have "agg_inv mt (AList.update n s1 agg)"
    by (auto simp: agg_inv_def distinct_update dom_update update_conv')
  moreover from Cons.prems(3) have "''counts'' \<notin> fst ` set dm"
    by simp
  ultimately show ?case
    using Cons.IH[OF r] by blast
qed

lemma dialog_loop_inv:
  assumes "dialog_loop mt agg ds gold seed_tracks ks = Inr agg'" and "agg_inv mt agg"
  shows "agg_inv mt agg'"
  using assms
proof (induction ds arbitrary: agg)
  case Nil
  then show ?case by simp
next
  case (Cons x ds)
  obtain d ps where x: "x = (d, ps)" by (cases x)
  from Cons.prems(1) x obtain g ss dm agg1 where
    dm: "compute_metrics_per_turn ps g ss ks = Inr dm"
    and a1: "agg_update mt agg dm = Inr agg1"
    and r: "dialog_loop mt agg1 ds gold seed_tracks ks = Inr agg'"
    by (auto split: option.splits sum.splits)
  from per_turn_result_shape(2)[OF dm] counts_not_key[of ks]
  have "''counts'' \<notin> fst ` set dm"
    by blast
  from agg_update_inv[OF a1 Cons.prems(2) this] Cons.IH[OF r] show ?case
    by blast
qed

lemma report_loop_lookup:
  assumes "distinct (map fst agg)" and "''counts'' \<notin> fst ` set agg"
  shows "map_of (report_loop rep agg) x =
     (if x = ''counts''
      then (if agg = [] then map_of rep x else Some (summary_counts (snd (last agg))))
      else (case map_of agg x of
              None \<Rightarrow> map_of rep x
            | Some s \<Rightarrow> Some (summary_values s)))"
  using assms
proof (induction agg arbitrary: rep)
  case Nil
  show ?case by simp
next
  case (Cons p agg)
  obtain n s where p: "p = (n, s)" by (cases p)
  from Cons.prems p have d: "distinct (map fst agg)" and c: "''counts'' \<notin> fst ` set agg"
    and nc: "n \<noteq> ''counts''" and nn: "map_of agg n = None"
    by (auto simp: map_of_eq_None_iff)
  show ?case
    using nc nn
    by (auto simp: p Cons.IH[OF d c] update_conv' split: option.splits)
qed

lemma report_loop_keys:
  "fst ` set (report_loop rep agg) =
     fst ` set rep \<union> fst ` set agg \<union> (if agg = [] then {} else {''counts''})"
proof (induction agg arbitrary: rep)
  case Nil
  show ?case by simp
next
  case (Cons p agg)
  obtain n s where p: "p = (n, s)" by (cases p)
  show ?case
    by (auto simp: p Cons.IH dom_update)
qed


text \<open>
  C7. When \<open>score_dataset\<close> returns, every metric key of the aggregator maps to the
  vector of the macro mean, the micro mean and the means of the \<open>max_turns\<close>
  buckets. The entry \<open>counts\<close> is stored again at every iteration of the reporting
  loop: after \<open>n\<close> iterations it holds the counts of the \<open>n\<close>-th metric, and at
  the end those of the last metric iterated. With no metric at all the report is empty.
\<close>

theorem reported_vectors:
  assumes "score_dataset preds gold seed_tracks ks max_turns = Inr reported"
  shows "\<exists>agg. dialog_loop max_turns [] preds gold seed_tracks ks = Inr agg \<and>
     reported = report_loop [] agg \<and> distinct (map fst agg) \<and>
     (\<forall>(name, summ) \<in> set agg.
        map_of reported name =
          Some (avg_value (macro_average summ) # avg_value (micro_average summ)
                # map avg_value (per_turn_average summ)) \<and>
        length (per_turn_average summ) = nat max_turns) \<and>
     (\<forall>n. 0 < n \<and> n \<le> length agg \<longrightarrow>
        map_of (report_loop [] (take n agg)) ''counts''
          = Some (summary_counts (snd (agg ! (n - 1))))) \<and>
     (agg \<noteq> [] \<longrightarrow>
        map_of reported ''counts'' =
          Some (of_nat (avg_count (macro_average (snd (last agg))))
                # of_nat (avg_count (micro_average (snd (last agg))))
                # map (\<lambda>turn_avg. of_nat (avg_count turn_avg))
                    (per_turn_average (snd (last agg))))) \<and>
     (agg = [] \<longrightarrow> reported = [])"
proof -
  from assms obtain agg where
    agg: "dialog_loop max_turns [] preds gold seed_tracks ks = Inr agg"
    and rep: "reported = report_loop [] agg"
    by (auto simp: score_dataset_def split: sum.splits)
  have "agg_inv max_turns []"
    by (simp add: agg_inv_def)
  from dialog_loop_inv[OF agg this]
  have d: "distinct (map fst agg)" and c: "''counts'' \<notin> fst ` set agg"
    and l: "\<And>n s. map_of agg n = Some s \<Longrightarrow> length (per_turn_average s) = nat max_turns"
    by (simp_all add: agg_inv_def)
  have v: "map_of reported name =
          Some (avg_value (macro_average summ) # avg_value (micro_average summ)
                # map avg_value (per_turn_average summ)) \<and>
        length (per_turn_average summ) = nat max_turns"
    if "(name, summ) \<in> set agg" for name summ
  proof -
    from that d have m: "map_of agg name = Some summ" by simp
    from that c have "name \<noteq> ''counts''" by force
    with m show ?thesis
      by (simp add: rep report_loop_lookup[OF d c] l[OF m] summary_values_def)
  qed
  have p: "map_of (report_loop [] (take n agg)) ''counts''
          = Some (summary_counts (snd (agg ! (n - 1))))"
    if "0 < n" "n \<le> length agg" for n
  proof -
    from d have d': "distinct (map fst (take n agg))"
      by (simp add: take_map[symmetric])
    from c have c': "''counts'' \<notin> fst ` set (take n agg)"
      using set_take_subset[of n agg] by blast
    from that have ne: "take n agg \<noteq> []" by auto
    then have "last (take n agg) = agg ! (n - 1)"
      using that by (simp add: last_conv_nth min_absorb2)
    with ne show ?thesis
      by (simp add: report_loop_lookup[OF d' c'])
  qed
  have f: "map_of reported ''counts'' =
          Some (of_nat (avg_count (macro_average (snd (last agg))))
                # of_nat (avg_count (micro_average (snd (last agg))))
                # map (\<lambda>turn_avg. of_nat (avg_count turn_avg))
                    (per_turn_average (snd (last agg))))"
    if "agg \<noteq> []"
    using that by (simp add: rep report_loop_lookup[OF d c] summary_counts_def)
  have e: "reported = []" if "agg = []"
    using that by (simp add: rep)
  show ?thesis
  proof (intro exI[of _ agg] conjI)
    show "dialog_loop max_turns [] preds gold seed_tracks ks = Inr agg" by (rule agg)
    show "reported = report_loop [] agg" by (rule rep)
    show "distinct (map fst agg)" by (rule d)
    show "\<forall>(name, summ) \<in> set agg.
        map_of reported name =
          Some (avg_value (macro_average summ) # avg_value (micro_average summ)
                # map avg_value (per_turn_average summ)) \<and>
        length (per_turn_average summ) = nat max_turns"
      using v by auto
    show "\<forall>n. 0 < n \<and> n \<le> length agg \<longrightarrow>
        map_of (report_loop [] (take n agg)) ''counts''
          = Some (summary_counts (snd (agg ! (n - 1))))"
      using p by simp
    show "agg \<noteq> [] \<longrightarrow>
        map_of reported ''counts'' =
          Some (of_nat (avg_count (macro_average (snd (last agg))))
                # of_nat (avg_count (micro_average (snd (last agg))))
                # map (\<lambda>turn_avg. of_nat (avg_count turn_avg))
                    (per_turn_average (snd (last agg))))"
      using f by simp
    show "agg = [] \<longrightarrow> reported = []"
      using e by simp
  qed
qed


theorem reported_vectors_witness:
  "score_dataset [(''d'', [[''A'', ''X''], [''B'', ''Y''], [''Z'', ''W'']])]
      [''d'' \<mapsto> [''A'', ''B'']] [''d'' \<mapsto> [[], [''A''], [''B'']]] [1] 3
    = Inr [(''hit@1'', [1, 1, 1, 1, 0]), (''counts'', [1, 2, 1, 1, 0]),
           (''map@1'', [1, 1, 1, 1, 0]), (''mrr@1'', [1, 1, 1, 1, 0]),
           (''precision@1'', [1, 1, 1, 1, 0]), (''recall@1'', [3 / 4, 3 / 4, 1 / 2, 1, 0])] \<and>
   (\<exists>agg. dialog_loop 3 [] [(''d'', [[''A'', ''X''], [''B'', ''Y''], [''Z'', ''W'']])]
        [''d'' \<mapsto> [''A'', ''B'']] [''d'' \<mapsto> [[], [''A''], [''B'']]] [1] = Inr agg \<and>
      agg \<noteq> [] \<and>
      of_nat (avg_count (macro_average (snd (last agg))))
        # of_nat (avg_count (micro_average (snd (last agg))))
        # map (\<lambda>turn_avg. of_nat (avg_count turn_avg)) (per_turn_average (snd (last agg)))
      = [1, 2, 1, 1, 0::rat])"
proof -
  let ?R = "[(''hit@1'', [1, 1, 1, 1, 0]), (''counts'', [1, 2, 1, 1, 0::rat]),
           (''map@1'', [1, 1, 1, 1, 0]), (''mrr@1'', [1, 1, 1, 1, 0]),
           (''precision@1'', [1, 1, 1, 1, 0]), (''recall@1'', [3 / 4, 3 / 4, 1 / 2, 1, 0])]"
  have e: "score_dataset [(''d'', [[''A'', ''X''], [''B'', ''Y''], [''Z'', ''W'']])]
      [''d'' \<mapsto> [''A'', ''B'']] [''d'' \<mapsto> [[], [''A''], [''B'']]] [1] 3 = Inr ?R"
    by code_simp
  from reported_vectors[OF e] obtain agg where
    a: "dialog_loop 3 [] [(''d'', [[''A'', ''X''], [''B'', ''Y''], [''Z'', ''W'']])]
        [''d'' \<mapsto> [''A'', ''B'']] [''d'' \<mapsto> [[], [''A''], [''B'']]] [1] = Inr agg"
    and b: "agg \<noteq> [] \<longrightarrow>
        map_of ?R ''counts'' =
          Some (of_nat (avg_count (macro_average (snd (last agg))))
                # of_nat (avg_count (micro_average (snd (last agg))))
                # map (\<lambda>turn_avg. of_nat (avg_count turn_avg))
                    (per_turn_average (snd (last agg))))"
    and c: "agg = [] \<longrightarrow> ?R = []"
    by (elim exE conjE) (rule that)
  from c have ne: "agg \<noteq> []" by auto
  have "map_of ?R ''counts'' = Some [1, 2, 1, 1, 0]"
    by simp
  with b ne have "of_nat (avg_count (macro_average (snd (last agg))))
        # of_nat (avg_count (micro_average (snd (last agg))))
        # map (\<lambda>turn_avg. of_nat (avg_count turn_avg)) (per_turn_average (snd (last agg)))
      = [1, 2, 1, 1, 0::rat]"
    by (simp only: option.inject simp_thms)
  with a ne have "\<exists>agg. dialog_loop 3 [] [(''d'', [[''A'', ''X''], [''B'', ''Y''], [''Z'', ''W'']])]
        [''d'' \<mapsto> [''A'', ''B'']] [''d'' \<mapsto> [[], [''A''], [''B'']]] [1] = Inr agg \<and>
      agg \<noteq> [] \<and>
      of_nat (avg_count (macro_average (snd (last agg))))
        # of_nat (avg_count (micro_average (snd (last agg))))
        # map (\<lambda>turn_avg. of_nat (avg_count turn_avg)) (per_turn_average (snd (last agg)))
      = [1, 2, 1, 1, 0::rat]"
    by (intro exI[of _ agg] conjI)
  with e show ?thesis
    by (rule conjI)
qed

section \<open>The scored turns are the first turns of the dialog\<close>

text \<open>
  Once the filtered gold is empty it stays empty, so the scored turns are the turns
  \<open>0, 1, ...\<close> up to the first skipped one: the value at position \<open>i\<close> of a
  metric's list is the value of turn \<open>i\<close>.
\<close>

lemma scored_turns_prefix:
  "scored_turns preds gold seed_tracks = [0..<length (scored_turns preds gold seed_tracks)]"
proof -
  let ?P = "\<lambda>t. turn_filtered_gold gold seed_tracks t \<noteq> []"
  have "filter ?P [0..<n] = [0..<length (filter ?P [0..<n])]" for n
  proof (induction n)
    case 0
    show ?case by simp
  next
    case (Suc n)
    show ?case
    proof (cases "?P n")
      case True
      have "?P t" if "t < n" for t
      proof
        assume "turn_filtered_gold gold seed_tracks t = []"
        moreover from that have "t \<le> n" by simp
        ultimately have "turn_filtered_gold gold seed_tracks n = []"
          by (rule filtered_gold_stays_empty)
        with True show False by simp
      qed
      then have "filter ?P [0..<n] = [0..<n]"
        by (intro filter_True) simp
      with True show ?thesis by simp
    next
      case False
      with Suc show ?thesis by simp
    qed
  qed
  then show ?thesis
    by (simp add: scored_turns_def)
qed

end
